theory Spec2Isabelle
  imports Complex_Main "HOL-Library.Word" "HOL-Library.Multiset" "HOL-Library.AList"
    "HOL-Library.Product_Lexorder"
begin

unbundle bit_operations_syntax


section \<open>Panics and errors\<close>

text \<open>
  Every \<^verbatim>\<open>panic\<close> of the Go source is a value of this type, and so is every Go
  \<^verbatim>\<open>error\<close> that the modelled functions return. A function that can panic returns
  \<open>error + 'a\<close> with \<open>Inl\<close> for the panic; a Go result \<^verbatim>\<open>err error\<close> is an
  \<open>error option\<close>, \<open>None\<close> for \<^verbatim>\<open>nil\<close>. \<open>ErrExternal\<close> is an error of a function
  outside the modelled code, with its message.
\<close>

datatype error =
    PanicShouldOnlyAddOnce
  | PanicMustLess
  | PanicPendingChunksRemaining int
  | PanicRequestablePiecesRemaining int
  | PanicNilDereference
  | PanicDivideByZero
  | PanicIndexOutOfRange
  | PanicLenOutOfRange
  | PanicCloseFailed
  | PanicCloseOfClosedChannel
  | PanicNope
  | PanicWat
  | PanicPieceNotWithPeer
  | PanicUnwantedPiece
  | ErrBannedTorrent
  | ErrNoSuchTorrent
  | ErrNoPornPlx
  | SyntaxError int string
  | ErrExternal string



section \<open>Bencode\<close>

type_synonym byte = "8 word"

text \<open>
  Modelled from the spec: the bodies of \<^verbatim>\<open>encoder.encode\<close> and \<^verbatim>\<open>decoder.decode\<close> are
  declared outside the given sources, which hold only the error types and the two stateless
  entry points. The spec treats the codec as an encode/decode pair over a self-describing
  tree model. The tree has the four shapes of bencode: integers, byte strings, lists, and
  dictionaries, a dictionary being its entries in the order they are written. A Go value
  with no place in the tree (the source names \<^verbatim>\<open>float32\<close> and \<^verbatim>\<open>float64\<close>) makes the encoder
  return a \<^verbatim>\<open>MarshalTypeError\<close> and is not a value of this type.
\<close>

datatype bvalue =
    BInt int
  | BString "byte list"
  | BList "bvalue list"
  | BDict "(byte list \<times> bvalue) list"

text \<open>Decimal digits, most significant first; \<open>48\<close> is the character \<^verbatim>\<open>0\<close>.\<close>

definition digitByte :: "nat \<Rightarrow> byte" where
  "digitByte d = of_nat (48 + d)"

function digits :: "nat \<Rightarrow> byte list" where
  "digits n = (if n < 10 then [digitByte n] else digits (n div 10) @ [digitByte (n mod 10)])"
  by pat_completeness auto
termination
  by (relation "measure id") auto

declare digits.simps [simp del]

definition isDigit :: "byte \<Rightarrow> bool" where
  "isDigit c \<longleftrightarrow> 48 \<le> c \<and> c \<le> 57"

definition parseNat :: "byte list \<Rightarrow> nat" where
  "parseNat ds = foldl (\<lambda>acc d. 10 * acc + (unat d - 48)) 0 ds"

text \<open>\<open>45\<close> is the minus sign.\<close>

definition encodeInt :: "int \<Rightarrow> byte list" where
  "encodeInt i = (if i < 0 then 45 # digits (nat (- i)) else digits (nat i))"

definition parseInt :: "byte list \<Rightarrow> int option" where
  "parseInt ds =
     (case ds of
        [] \<Rightarrow> None
      | c # cs \<Rightarrow>
          if c = 45 then (if cs \<noteq> [] \<and> list_all isDigit cs then Some (- int (parseNat cs)) else None)
          else if list_all isDigit ds then Some (int (parseNat ds)) else None)"

text \<open>A byte string is its length, a colon (\<open>58\<close>), and its bytes.\<close>

definition encodeString :: "byte list \<Rightarrow> byte list" where
  "encodeString s = digits (length s) @ 58 # s"

text \<open>
  Modelled from the spec: the encoder. The tags are \<^verbatim>\<open>i\<close> (\<open>105\<close>), \<^verbatim>\<open>l\<close> (\<open>108\<close>),
  \<^verbatim>\<open>d\<close> (\<open>100\<close>) and the terminator \<^verbatim>\<open>e\<close> (\<open>101\<close>).
\<close>

fun encode :: "bvalue \<Rightarrow> byte list" where
  "encode (BInt i) = 105 # encodeInt i @ [101]"
| "encode (BString s) = encodeString s"
| "encode (BList vs) = 108 # concat (map encode vs) @ [101]"
| "encode (BDict kvs) = 100 # concat (map (\<lambda>(k, v). encodeString k @ encode v) kvs) @ [101]"

text \<open>The entries of a dictionary are read as a list of values, alternately key and value.\<close>

fun pairUp :: "bvalue list \<Rightarrow> (byte list \<times> bvalue) list option" where
  "pairUp [] = Some []"
| "pairUp (BString k # v # rest) = map_option ((#) (k, v)) (pairUp rest)"
| "pairUp _ = None"

definition flatten :: "(byte list \<times> bvalue) list \<Rightarrow> bvalue list" where
  "flatten kvs = concat (map (\<lambda>(k, v). [BString k, v]) kvs)"

text \<open>
  Modelled from the spec: the decoder, a recursive descent over the input that returns the
  value read and the bytes left. The first argument bounds the depth of the recursion, one
  unit for each value and each list position; \<open>None\<close> is a syntax error or an exhausted
  bound.
\<close>

fun decode :: "nat \<Rightarrow> byte list \<Rightarrow> (bvalue \<times> byte list) option"
  and decodeList :: "nat \<Rightarrow> byte list \<Rightarrow> (bvalue list \<times> byte list) option" where
  "decode 0 bs = None"
| "decode (Suc f) [] = None"
| "decode (Suc f) (c # bs) =
     (if c = 105 then
        (case dropWhile (\<lambda>b. b \<noteq> 101) bs of
           [] \<Rightarrow> None
         | e # rest \<Rightarrow> map_option (\<lambda>i. (BInt i, rest)) (parseInt (takeWhile (\<lambda>b. b \<noteq> 101) bs)))
      else if c = 108 then map_option (\<lambda>(vs, rest). (BList vs, rest)) (decodeList f bs)
      else if c = 100 then
        (case decodeList f bs of
           None \<Rightarrow> None
         | Some (vs, rest) \<Rightarrow> map_option (\<lambda>kvs. (BDict kvs, rest)) (pairUp vs))
      else if isDigit c then
        (case dropWhile isDigit (c # bs) of
           [] \<Rightarrow> None
         | colon # rest \<Rightarrow>
             if colon = 58 \<and> parseNat (takeWhile isDigit (c # bs)) \<le> length rest
             then Some (BString (take (parseNat (takeWhile isDigit (c # bs))) rest),
                        drop (parseNat (takeWhile isDigit (c # bs))) rest)
             else None)
      else None)"
| "decodeList 0 bs = None"
| "decodeList (Suc f) [] = None"
| "decodeList (Suc f) (c # bs) =
     (if c = 101 then Some ([], bs)
      else (case decode f (c # bs) of
              None \<Rightarrow> None
            | Some (v, rest) \<Rightarrow> map_option (\<lambda>(vs, rest'). (v # vs, rest')) (decodeList f rest)))"

text \<open>
  The two methods as the entry points call them. The encoder writes into a buffer and
  returns an error or nothing; the decoder is given twice the length of the input as its
  bound, which no encoding of a value exhausts (\<open>decode_encode\<close> below), and reports
  a failure as an error of its own.
\<close>

definition encoder_encode :: "bvalue \<Rightarrow> error + byte list" where
  "encoder_encode v = Inr (encode v)"

definition decoder_decode :: "byte list \<Rightarrow> error + (bvalue \<times> byte list)" where
  "decoder_decode data =
     (case decode (2 * length data) data of
        None \<Rightarrow> Inl (ErrExternal ''bencode: syntax error'')
      | Some r \<Rightarrow> Inr r)"

text \<open>
  \<^verbatim>\<open>Marshal\<close> and \<^verbatim>\<open>Unmarshal\<close> of the source. \<^verbatim>\<open>Marshal\<close> returns the encoder's error, or
  the bytes of the buffer. \<^verbatim>\<open>Unmarshal\<close> returns the decoder's error; after a successful
  decode it reads one more byte: at the end of the input (\<^verbatim>\<open>io.EOF\<close>) the result is the
  value, otherwise a \<^verbatim>\<open>SyntaxError\<close> at the decoder's offset, saying \<^verbatim>\<open>trailing bytes\<close>.
  The value that the Go function stores through its pointer argument is returned here.
\<close>

definition Marshal :: "bvalue \<Rightarrow> error + byte list" where
  "Marshal v =
     (case encoder_encode v of
        Inl err \<Rightarrow> Inl err
      | Inr buf \<Rightarrow> Inr buf)"

definition Unmarshal :: "byte list \<Rightarrow> error + bvalue" where
  "Unmarshal data =
     (case decoder_decode data of
        Inl err \<Rightarrow> Inl err
      | Inr (v, rest) \<Rightarrow>
          (case rest of
             [] \<Rightarrow> Inr v
           | b # bs \<Rightarrow> Inl (SyntaxError (int (length data) - int (length rest)) ''trailing bytes'')))"

text \<open>An info dictionary of one file, as a value of the tree.\<close>

definition asciiBytes :: "string \<Rightarrow> byte list" where
  "asciiBytes s = map (\<lambda>c. of_nat (of_char c)) s"

definition sampleInfo :: bvalue where
  "sampleInfo = BDict
     [(asciiBytes ''length'', BInt 16384),
      (asciiBytes ''name'', BString (asciiBytes ''a'')),
      (asciiBytes ''tiers'', BList [BList [], BInt (- 7)])]"

section \<open>The reduced dial timeout (client.go)\<close>

text \<open>
  Go's \<^verbatim>\<open>/\<close> on integers truncates towards zero and panics on a zero divisor; \<open>quot\<close> is
  the truncating quotient of two integers.
\<close>

definition quot :: "int \<Rightarrow> int \<Rightarrow> int" where
  "quot a b = sgn a * sgn b * (\<bar>a\<bar> div \<bar>b\<bar>)"

text \<open>
  The operands of \<^verbatim>\<open>reducedDialTimeout\<close> are of the types \<^verbatim>\<open>int\<close> and \<^verbatim>\<open>time.Duration\<close>. A
  duration is an \<^verbatim>\<open>int64\<close>, and \<^verbatim>\<open>int\<close> is taken at its width of 64 bits, so that the
  conversion between the two changes nothing. Both are words of 64 bits read as signed:
  \<open>+\<close> and \<open>-\<close> wrap, and the quotient of the most negative value by \<open>-1\<close> wraps to the
  most negative value, as Go defines it.
\<close>

definition sdiv64 :: "64 word \<Rightarrow> 64 word \<Rightarrow> 64 word" where
  "sdiv64 a b = word_of_int (quot (sint a) (sint b))"

text \<open>
  The constant \<^verbatim>\<open>minDialTimeout\<close> is declared outside the given sources; it is the first
  parameter. \<^verbatim>\<open>max\<close> is \<open>max_t\<close> here. Each of the two divisions panics on a zero
  divisor.
\<close>

definition reducedDialTimeout :: "64 word \<Rightarrow> 64 word \<Rightarrow> 64 word \<Rightarrow> 64 word \<Rightarrow> error + 64 word" where
  "reducedDialTimeout minDialTimeout max_t halfOpenLimit pendingPeers =
     (if halfOpenLimit = 0 then Inl PanicDivideByZero
      else if sdiv64 (pendingPeers + halfOpenLimit) halfOpenLimit = 0 then Inl PanicDivideByZero
      else
        (let ret = sdiv64 max_t (sdiv64 (pendingPeers + halfOpenLimit) halfOpenLimit)
         in Inr (if ret <s minDialTimeout then minDialTimeout else ret)))"

text \<open>
  \<^verbatim>\<open>dialTimeout\<close> calls it with the constant \<^verbatim>\<open>nominalDialTimeout\<close> (also declared
  elsewhere), the client's limit and the number of peers the torrent knows, the length
  of a map.
\<close>

definition dialTimeout :: "64 word \<Rightarrow> 64 word \<Rightarrow> 64 word \<Rightarrow> nat \<Rightarrow> error + 64 word" where
  "dialTimeout minDialTimeout nominalDialTimeout halfOpenLimit numPeers =
     reducedDialTimeout minDialTimeout nominalDialTimeout halfOpenLimit (of_nat numPeers)"

text \<open>
  The spec's formula, over the integers: the nominal timeout divided by the ceiling of
  (pending + halfOpenLimit) / halfOpenLimit, and at least \<^verbatim>\<open>minDialTimeout\<close>.
\<close>

definition ceilDiv :: "int \<Rightarrow> int \<Rightarrow> int" where
  "ceilDiv a b = - ((- a) div b)"

definition specDialTimeout :: "int \<Rightarrow> int \<Rightarrow> int \<Rightarrow> int \<Rightarrow> int" where
  "specDialTimeout minDialTimeout nominal halfOpenLimit pending =
     max minDialTimeout (quot nominal (ceilDiv (pending + halfOpenLimit) halfOpenLimit))"

section \<open>SHA-1 (crypto/sha1)\<close>

text \<open>
  The digest of FIPS 180: the message is padded with \<open>0x80\<close>, zeros and its length in bits
  as 64 bits big-endian, and each block of 64 bytes goes through 80 rounds.
\<close>

definition sha1_pad :: "byte list \<Rightarrow> byte list" where
  "sha1_pad m =
     (let l = length m; bits = (of_nat (8 * l) :: 64 word) in
      m @ [0x80] @ replicate ((119 - l mod 64) mod 64) 0
        @ map (\<lambda>i. ucast (drop_bit (8 * (7 - i)) bits)) [0..<8])"

definition be32 :: "byte list \<Rightarrow> 32 word" where
  "be32 bs = foldl (\<lambda>acc b. push_bit 8 acc OR ucast b) 0 (take 4 bs)"

fun sha1_words :: "nat \<Rightarrow> byte list \<Rightarrow> 32 word list" where
  "sha1_words 0 bs = []"
| "sha1_words (Suc n) bs = be32 bs # sha1_words n (drop 4 bs)"

fun sha1_extend :: "nat \<Rightarrow> 32 word list \<Rightarrow> 32 word list" where
  "sha1_extend 0 ws = ws"
| "sha1_extend (Suc n) ws =
     (let t = length ws in
      sha1_extend n
        (ws @ [word_rotl 1 (ws ! (t - 3) XOR ws ! (t - 8) XOR ws ! (t - 14) XOR ws ! (t - 16))]))"

type_synonym sha1_state = "32 word \<times> 32 word \<times> 32 word \<times> 32 word \<times> 32 word"

definition sha1_round :: "sha1_state \<Rightarrow> nat \<times> 32 word \<Rightarrow> sha1_state" where
  "sha1_round s tw =
     (case s of (a, b, c, d, e) \<Rightarrow>
        (let t = fst tw; w = snd tw;
             f = (if t < 20 then (b AND c) OR (NOT b AND d)
                  else if t < 40 then b XOR c XOR d
                  else if t < 60 then (b AND c) OR (b AND d) OR (c AND d)
                  else b XOR c XOR d);
             k = (if t < 20 then 0x5A827999 else if t < 40 then 0x6ED9EBA1
                  else if t < 60 then 0x8F1BBCDC else 0xCA62C1D6)
         in (word_rotl 5 a + f + e + k + w, a, word_rotl 30 b, c, d)))"

definition sha1_block :: "sha1_state \<Rightarrow> byte list \<Rightarrow> sha1_state" where
  "sha1_block h block =
     (let ws = sha1_extend 64 (sha1_words 16 block) in
      case (h, foldl sha1_round h (zip [0..<80] ws)) of
        ((h0, h1, h2, h3, h4), (a, b, c, d, e)) \<Rightarrow> (h0 + a, h1 + b, h2 + c, h3 + d, h4 + e))"

fun sha1_blocks :: "nat \<Rightarrow> sha1_state \<Rightarrow> byte list \<Rightarrow> sha1_state" where
  "sha1_blocks 0 h bs = h"
| "sha1_blocks (Suc n) h bs = sha1_blocks n (sha1_block h (take 64 bs)) (drop 64 bs)"

definition be_bytes :: "32 word \<Rightarrow> byte list" where
  "be_bytes w = map (\<lambda>i. ucast (drop_bit (8 * (3 - i)) w)) [0..<4]"

definition sha1 :: "byte list \<Rightarrow> byte list" where
  "sha1 m =
     (let p = sha1_pad m in
      case sha1_blocks (length p div 64)
             (0x67452301, 0xEFCDAB89, 0x98BADCFE, 0x10325476, 0xC3D2E1F0) p of
        (h0, h1, h2, h3, h4) \<Rightarrow>
          be_bytes h0 @ be_bytes h1 @ be_bytes h2 @ be_bytes h3 @ be_bytes h4)"

section \<open>Torrents and the client (client.go)\<close>

text \<open>
  Modelled from the spec: the constants of \<^verbatim>\<open>piecePriority\<close> are declared outside the
  given sources. The spec lists the priorities as none, normal, readahead, next, now and
  says that the lower value loses; the code compares them with \<^verbatim>\<open><\<close>.
\<close>

type_synonym piecePriority = nat

definition piecePriorityNone :: piecePriority where "piecePriorityNone = 0"
definition piecePriorityNormal :: piecePriority where "piecePriorityNormal = 1"
definition piecePriorityReadahead :: piecePriority where "piecePriorityReadahead = 2"
definition piecePriorityNext :: piecePriority where "piecePriorityNext = 3"
definition piecePriorityNow :: piecePriority where "piecePriorityNow = 4"

text \<open>
  A chunk of a piece and a request for it, as in the peer protocol: \<^verbatim>\<open>pp.Integer\<close> is an
  unsigned integer of 32 bits. The one message that the modelled code posts is
  \<^verbatim>\<open>Have\<close>.
\<close>

type_synonym chunkSpec = "32 word \<times> 32 word"
type_synonym request = "32 word \<times> chunkSpec"

datatype message = Have "32 word"

text \<open>
  A piece, with the fields that the modelled functions read or write. The sets
  \<^verbatim>\<open>PendingChunkSpecs\<close> and \<^verbatim>\<open>Requests\<close> are lists.
\<close>

record piece =
  Priority :: piecePriority
  EverHashed :: bool
  Hashing :: bool
  QueuedForHash :: bool
  PendingChunkSpecs :: "chunkSpec list"

text \<open>
  A connection. The type \<^verbatim>\<open>connection\<close> is declared outside the given sources; these are
  the fields that \<^verbatim>\<open>pieceChanged\<close> and \<^verbatim>\<open>fillRequests\<close> read. \<open>pieceRequestOrder\<close> is the
  pieces of the connection's request order in the order of \<^verbatim>\<open>First\<close> and \<^verbatim>\<open>Next\<close>, and
  \<open>PeerHasPiece\<close> is the answer of the method of that name. \<^verbatim>\<open>DeletePiece\<close> takes a piece
  out of the request order.
\<close>

record connection =
  Requests :: "request list"
  Interested :: bool
  PeerChoked :: bool
  requestsLowWater :: int
  pieceRequestOrder :: "int list"
  PeerHasPiece :: "int \<Rightarrow> bool"

text \<open>\<^verbatim>\<open>metainfo.Info\<close>, with the two fields the modelled code reads; the piece length is an \<^verbatim>\<open>int64\<close>.\<close>

record Info =
  Name :: string
  PieceLength :: "64 word"

text \<open>
  A torrent. \<open>pieceComplete\<close> and \<open>havePiece\<close> are the answers of the methods
  \<^verbatim>\<open>t.pieceComplete\<close> and \<^verbatim>\<open>t.havePiece\<close>, which are declared outside the given sources;
  they read the storage, which none of the functions below writes. \<open>torrent_data\<close> is
  the field \<^verbatim>\<open>data\<close>, the storage or nil; \<open>ceasingNetworking\<close> and \<open>gotMetainfo\<close> tell
  whether the channel of that name is closed.
\<close>

record torrent =
  InfoHash :: "byte list"
  DisplayName :: string
  MetaData :: "byte list"
  Info :: "Info option"
  Pieces :: "piece list"
  Conns :: "connection list"
  Trackers :: "string list list"
  torrent_data :: "nat option"
  ceasingNetworking :: bool
  gotMetainfo :: bool
  pieceComplete :: "nat \<Rightarrow> bool"
  havePiece :: "nat \<Rightarrow> bool"

text \<open>
  The client: \<open>objs\<close> is the store of torrent objects by address, \<open>nextObj\<close> the
  address of the next allocation, \<open>torrents\<close> the registry from infohash to address.
\<close>

record Client =
  noUpload :: bool
  objs :: "nat \<rightharpoonup> torrent"
  nextObj :: nat
  torrents :: "byte list \<rightharpoonup> nat"
  bannedTorrents :: "byte list set"

text \<open>
  What the modelled functions call outside the given sources: the bencode decoder into
  a \<^verbatim>\<open>metainfo.Info\<close>; the methods \<^verbatim>\<open>setMetadata\<close>, \<^verbatim>\<open>setStorage\<close>, \<^verbatim>\<open>close\<close>, \<^verbatim>\<open>wantPiece\<close>,
  \<^verbatim>\<open>haveAllPieces\<close> and \<^verbatim>\<open>pendAllChunkSpecs\<close> of a torrent, the last as the chunks it makes
  pending; the client's \<^verbatim>\<open>torrentDataOpener\<close>, which returns a storage or nil; the cache
  of metainfo files (announce list, info and its bytes); \<^verbatim>\<open>t.addTrackers\<close> with its
  shuffle; the shuffled pending chunks of a piece; and the methods \<^verbatim>\<open>Request\<close>,
  \<^verbatim>\<open>pendPiece\<close>, \<^verbatim>\<open>SetInterested\<close> and \<^verbatim>\<open>Post\<close> of a connection.
\<close>

record environment =
  bencodeUnmarshalInfo :: "byte list \<Rightarrow> error + Info"
  torrent_setMetadata :: "torrent \<Rightarrow> Info \<Rightarrow> byte list \<Rightarrow> error option \<times> torrent"
  torrentDataOpener :: "Info \<Rightarrow> nat option"
  torrent_setStorage :: "torrent \<Rightarrow> nat option \<Rightarrow> error option \<times> torrent"
  torrent_close :: "torrent \<Rightarrow> error option \<times> torrent"
  torrentCacheMetaInfo :: "byte list \<Rightarrow> error option \<times> (string list list \<times> Info \<times> byte list) option"
  addTrackers :: "torrent \<Rightarrow> string list list \<Rightarrow> torrent"
  torrent_wantPiece :: "torrent \<Rightarrow> int \<Rightarrow> bool"
  torrent_haveAllPieces :: "torrent \<Rightarrow> bool"
  torrent_pendAllChunkSpecs :: "torrent \<Rightarrow> int \<Rightarrow> chunkSpec list"
  shuffledPendingChunkSpecs :: "piece \<Rightarrow> chunkSpec list"
  conn_Request :: "connection \<Rightarrow> request \<Rightarrow> bool \<times> connection"
  conn_pendPiece :: "connection \<Rightarrow> int \<Rightarrow> piecePriority \<Rightarrow> connection"
  conn_SetInterested :: "connection \<Rightarrow> bool \<Rightarrow> connection"
  conn_Post :: "connection \<Rightarrow> message \<Rightarrow> connection"

subsection \<open>Reader priorities\<close>

text \<open>
  The sum \<^verbatim>\<open>readahead+pieceLength-1\<close> is of type \<^verbatim>\<open>int64\<close> and wraps; the result is
  converted to \<^verbatim>\<open>int\<close>.
\<close>

definition readaheadPieces :: "64 word \<Rightarrow> 64 word \<Rightarrow> error + int" where
  "readaheadPieces readahead pieceLength =
     (if pieceLength = 0 then Inl PanicDivideByZero
      else Inr (sint (sdiv64 (readahead + pieceLength - 1) pieceLength - 1)))"

text \<open>\<^verbatim>\<open>t.Pieces[i]\<close> panics outside the slice.\<close>

definition pieceAt :: "torrent \<Rightarrow> int \<Rightarrow> error + piece" where
  "pieceAt t i =
     (if 0 \<le> i \<and> i < int (length (Pieces t)) then Inr (Pieces t ! nat i)
      else Inl PanicIndexOutOfRange)"

definition setPiece :: "torrent \<Rightarrow> int \<Rightarrow> piece \<Rightarrow> torrent" where
  "setPiece t i p = t\<lparr>Pieces := (Pieces t)[nat i := p]\<rparr>"

text \<open>
  \<^verbatim>\<open>queuePieceCheck\<close> also starts \<^verbatim>\<open>verifyPiece\<close> in a goroutine, which waits for the
  client's lock and so runs after the caller.
\<close>

definition queuePieceCheck :: "torrent \<Rightarrow> int \<Rightarrow> error + torrent" where
  "queuePieceCheck t pieceIndex =
     (case pieceAt t pieceIndex of
        Inl e \<Rightarrow> Inl e
      | Inr p \<Rightarrow>
          if QueuedForHash p then Inr t
          else Inr (setPiece t pieceIndex (p\<lparr>QueuedForHash := True\<rparr>)))"

definition queueFirstHash :: "torrent \<Rightarrow> int \<Rightarrow> error + torrent" where
  "queueFirstHash t i =
     (case pieceAt t i of
        Inl e \<Rightarrow> Inl e
      | Inr p \<Rightarrow>
          if EverHashed p \<or> Hashing p \<or> QueuedForHash p \<or> pieceComplete t (nat i) then Inr t
          else queuePieceCheck t i)"

text \<open>
  \<^verbatim>\<open>fillRequests\<close>. The closure \<^verbatim>\<open>addRequest\<close> refuses a request once the connection
  holds 32; \<open>requestChunks\<close> is the inner loop over the shuffled pending chunks of one
  piece, and returns false when a request was refused, which ends \<^verbatim>\<open>fillRequests\<close>;
  \<open>fillOrder\<close> is the outer loop over the request order, read when the loop starts.
  \<^verbatim>\<open>pp.Integer(pieceIndex)\<close> truncates to 32 bits.
\<close>

definition addRequest :: "environment \<Rightarrow> connection \<Rightarrow> request \<Rightarrow> bool \<times> connection" where
  "addRequest env c req =
     (if 32 \<le> length (Requests c) then (False, c) else conn_Request env c req)"

fun requestChunks :: "environment \<Rightarrow> int \<Rightarrow> chunkSpec list \<Rightarrow> connection \<Rightarrow> bool \<times> connection" where
  "requestChunks env pieceIndex [] c = (True, c)"
| "requestChunks env pieceIndex (cs # rest) c =
     (case addRequest env c (word_of_int pieceIndex, cs) of
        (False, c') \<Rightarrow> (False, c')
      | (True, c') \<Rightarrow> requestChunks env pieceIndex rest c')"

fun fillOrder :: "environment \<Rightarrow> torrent \<Rightarrow> int list \<Rightarrow> connection \<Rightarrow> error + connection" where
  "fillOrder env t [] c = Inr c"
| "fillOrder env t (pieceIndex # rest) c =
     (if \<not> PeerHasPiece c pieceIndex then Inl PanicPieceNotWithPeer
      else if \<not> torrent_wantPiece env t pieceIndex then Inl PanicUnwantedPiece
      else
        (case pieceAt t pieceIndex of
           Inl e \<Rightarrow> Inl e
         | Inr p \<Rightarrow>
             (case requestChunks env pieceIndex (shuffledPendingChunkSpecs env p) c of
                (False, c') \<Rightarrow> Inr c'
              | (True, c') \<Rightarrow> fillOrder env t rest c')))"

definition fillRequests :: "environment \<Rightarrow> torrent \<Rightarrow> connection \<Rightarrow> error + connection" where
  "fillRequests env t c =
     (if Interested c \<and> (PeerChoked c \<or> requestsLowWater c < int (length (Requests c))) then Inr c
      else fillOrder env t (pieceRequestOrder c) c)"

text \<open>
  Modelled from the spec: \<^verbatim>\<open>t.haveInfo\<close> is declared outside the given sources. The spec:
  the info is optional, absent until the metadata is acquired.
\<close>

definition haveInfo :: "torrent \<Rightarrow> bool" where
  "haveInfo t \<longleftrightarrow> Info t \<noteq> None"

definition replenishConnRequests :: "environment \<Rightarrow> torrent \<Rightarrow> connection \<Rightarrow> error + connection" where
  "replenishConnRequests env t c =
     (if \<not> haveInfo t then Inr c
      else
        (case fillRequests env t c of
           Inl e \<Rightarrow> Inl e
         | Inr c' \<Rightarrow>
             Inr (if length (Requests c') = 0 \<and> \<not> PeerChoked c' then conn_SetInterested env c' False
                  else c')))"

definition connPendPiece :: "environment \<Rightarrow> torrent \<Rightarrow> connection \<Rightarrow> int \<Rightarrow> error + connection" where
  "connPendPiece env t c i =
     (case pieceAt t i of
        Inl e \<Rightarrow> Inl e
      | Inr p \<Rightarrow> Inr (conn_pendPiece env c i (Priority p)))"

text \<open>
  One round of the loop of \<^verbatim>\<open>pieceChanged\<close> over \<^verbatim>\<open>t.Conns\<close>. For a complete piece the
  connection is sent \<^verbatim>\<open>Have\<close>, a request of the connection for the piece is a panic, and
  the piece leaves the connection's request order.
\<close>

definition holdsRequestFor :: "connection \<Rightarrow> int \<Rightarrow> bool" where
  "holdsRequestFor c i \<longleftrightarrow> list_ex (\<lambda>r. uint (fst r) = i) (Requests c)"

definition connPieceChanged ::
  "environment \<Rightarrow> torrent \<Rightarrow> int \<Rightarrow> bool \<Rightarrow> connection \<Rightarrow> error + connection" where
  "connPieceChanged env t i correct c =
     (case (if correct then
              (if holdsRequestFor c i then Inl PanicWat
               else Inr ((conn_Post env c (Have (word_of_int i)))
                           \<lparr>pieceRequestOrder := removeAll i (pieceRequestOrder (conn_Post env c (Have (word_of_int i))))\<rparr>))
            else Inr c) of
        Inl e \<Rightarrow> Inl e
      | Inr c1 \<Rightarrow>
          if torrent_wantPiece env t i \<and> PeerHasPiece c1 i then
            (case connPendPiece env t c1 i of
               Inl e \<Rightarrow> Inl e
             | Inr c2 \<Rightarrow> replenishConnRequests env t c2)
          else Inr c1)"

text \<open>The loop: \<open>n\<close> rounds from the connection at position \<open>k\<close>.\<close>

fun connsPieceChanged :: "environment \<Rightarrow> int \<Rightarrow> bool \<Rightarrow> nat \<Rightarrow> nat \<Rightarrow> torrent \<Rightarrow> error + torrent" where
  "connsPieceChanged env i correct 0 k t = Inr t"
| "connsPieceChanged env i correct (Suc n) k t =
     (case connPieceChanged env t i correct (Conns t ! k) of
        Inl e \<Rightarrow> Inl e
      | Inr c' \<Rightarrow> connsPieceChanged env i correct n (Suc k) (t\<lparr>Conns := (Conns t)[k := c']\<rparr>))"

text \<open>
  \<^verbatim>\<open>pieceChanged\<close>. The broadcasts wake other goroutines. \<^verbatim>\<open>openNewConns\<close>, called for an
  incomplete piece with a priority, moves peers from \<^verbatim>\<open>t.Peers\<close> to \<^verbatim>\<open>t.HalfOpen\<close> and starts
  goroutines that dial them. It ends, as each round deletes a peer; neither it nor
  \<^verbatim>\<open>wantConns\<close> and \<^verbatim>\<open>initiateConn\<close>, which it calls, has a \<^verbatim>\<open>panic\<close>; and it writes neither
  the pieces nor the connections. The peers and the half-open addresses are not part of
  the torrent here, and so the call is not either.

  Modelled from the spec: \<^verbatim>\<open>t.ceaseNetworking\<close> is declared outside the given sources. The
  spec: the \<^verbatim>\<open>ceasingNetworking\<close> channel is closed when upload and download are complete
  and no-upload mode is set.
\<close>

definition pieceChanged :: "environment \<Rightarrow> Client \<Rightarrow> torrent \<Rightarrow> int \<Rightarrow> error + torrent" where
  "pieceChanged env cl t i =
     (case pieceAt t i of
        Inl e \<Rightarrow> Inl e
      | Inr p \<Rightarrow>
          (let correct = pieceComplete t (nat i);
               t1 = (if correct then setPiece t i (p\<lparr>Priority := piecePriorityNone, PendingChunkSpecs := []\<rparr>)
                     else if length (PendingChunkSpecs p) = 0
                          then setPiece t i (p\<lparr>PendingChunkSpecs := torrent_pendAllChunkSpecs env t i\<rparr>)
                          else t)
           in case connsPieceChanged env i correct (length (Conns t1)) 0 t1 of
                Inl e \<Rightarrow> Inl e
              | Inr t2 \<Rightarrow>
                  Inr (if torrent_haveAllPieces env t2 \<and> noUpload cl then t2\<lparr>ceasingNetworking := True\<rparr>
                       else t2)))"

definition prioritizePiece :: "environment \<Rightarrow> Client \<Rightarrow> torrent \<Rightarrow> int \<Rightarrow> piecePriority \<Rightarrow> error + torrent" where
  "prioritizePiece env cl t i priority =
     (if havePiece t (nat i) then Inr t
      else
        (case queueFirstHash t i of
           Inl e \<Rightarrow> Inl e
         | Inr t1 \<Rightarrow>
             (case pieceAt t1 i of
                Inl e \<Rightarrow> Inl e
              | Inr p \<Rightarrow> pieceChanged env cl (setPiece t1 i (p\<lparr>Priority := priority\<rparr>)) i)))"

definition raisePiecePriority :: "environment \<Rightarrow> Client \<Rightarrow> torrent \<Rightarrow> int \<Rightarrow> piecePriority \<Rightarrow> error + torrent" where
  "raisePiecePriority env cl t i priority =
     (case pieceAt t i of
        Inl e \<Rightarrow> Inl e
      | Inr p \<Rightarrow> if Priority p < priority then prioritizePiece env cl t i priority else Inr t)"

text \<open>
  Modelled from the spec: \<^verbatim>\<open>t.numPieces\<close> and \<^verbatim>\<open>t.usualPieceSize\<close> are declared outside
  the given sources. They are the number of the torrent's pieces and the piece length of
  its info (the spec: the piece containing \<open>o\<close>, \<^verbatim>\<open>pieceLen\<close>).
\<close>

definition numPieces :: "torrent \<Rightarrow> int" where
  "numPieces t = int (length (Pieces t))"

text \<open>The loop \<^verbatim>\<open>for range iter.N(n)\<close> of \<^verbatim>\<open>readRaisePiecePriorities\<close>, \<open>n\<close> rounds from \<open>index\<close>.\<close>

fun raiseReadahead :: "environment \<Rightarrow> Client \<Rightarrow> nat \<Rightarrow> int \<Rightarrow> torrent \<Rightarrow> error + torrent" where
  "raiseReadahead env cl 0 index t = Inr t"
| "raiseReadahead env cl (Suc n) index t =
     (if index + 1 \<ge> numPieces t then Inr t
      else
        (case raisePiecePriority env cl t (index + 1) piecePriorityReadahead of
           Inl e \<Rightarrow> Inl e
         | Inr t' \<Rightarrow> raiseReadahead env cl n (index + 1) t'))"

text \<open>
  The offset is an \<^verbatim>\<open>int64\<close>, and so is the quotient by the piece size; the index is an
  \<^verbatim>\<open>int\<close>, which does not wrap below the number of pieces. \<^verbatim>\<open>iter.N\<close> makes a slice of the
  given length and panics on a negative one.
\<close>

definition readRaisePiecePriorities :: "environment \<Rightarrow> Client \<Rightarrow> torrent \<Rightarrow> 64 word \<Rightarrow> error + torrent" where
  "readRaisePiecePriorities env cl t off =
     (case Info t of
        None \<Rightarrow> Inl PanicNilDereference
      | Some info \<Rightarrow>
          if PieceLength info = 0 then Inl PanicDivideByZero
          else
            (let index = sint (sdiv64 off (PieceLength info)) in
             case raisePiecePriority env cl t index piecePriorityNow of
               Inl e \<Rightarrow> Inl e
             | Inr t1 \<Rightarrow>
                 if index + 1 \<ge> numPieces t1 then Inr t1
                 else
                   (case raisePiecePriority env cl t1 (index + 1) piecePriorityNext of
                      Inl e \<Rightarrow> Inl e
                    | Inr t2 \<Rightarrow>
                        (case readaheadPieces (5 * 1024 * 1024) (PieceLength info) of
                           Inl e \<Rightarrow> Inl e
                         | Inr n \<Rightarrow>
                             if n < 0 then Inl PanicLenOutOfRange
                             else raiseReadahead env cl (nat n) (index + 1) t2))))"

subsection \<open>Metadata\<close>

text \<open>
  Modelled from the spec: \<^verbatim>\<open>t.invalidateMetadata\<close> is declared outside the given sources.
  The spec: on mismatch, the metadata buffer is invalidated and acquisition restarts;
  the torrent is left without info.
\<close>

definition invalidateMetadata :: "torrent \<Rightarrow> torrent" where
  "invalidateMetadata t = t\<lparr>MetaData := [], Info := None\<rparr>"

definition dropTorrent :: "environment \<Rightarrow> Client \<Rightarrow> byte list \<Rightarrow> error + (error option \<times> Client)" where
  "dropTorrent env cl infoHash =
     (case torrents cl infoHash of
        None \<Rightarrow> Inr (Some ErrNoSuchTorrent, cl)
      | Some p \<Rightarrow>
          (case objs cl p of
             None \<Rightarrow> Inl PanicNilDereference
           | Some t \<Rightarrow>
               (case torrent_close env t of
                  (Some e, t') \<Rightarrow> Inl PanicCloseFailed
                | (None, t') \<Rightarrow>
                    Inr (None, cl\<lparr>objs := (objs cl)(p \<mapsto> t'),
                                   torrents := (torrents cl)(infoHash := None)\<rparr>))))"

text \<open>\<^verbatim>\<open>strings.ToLower\<close> and \<^verbatim>\<open>strings.Contains\<close>, on ASCII.\<close>

definition toLower :: "string \<Rightarrow> string" where
  "toLower s =
     map (\<lambda>c. if (65 :: nat) \<le> of_char c \<and> of_char c \<le> (90 :: nat)
              then char_of (of_char c + (32 :: nat)) else c) s"

fun contains :: "string \<Rightarrow> string \<Rightarrow> bool" where
  "contains [] substr = (substr = [])"
| "contains (c # s) substr = (take (length substr) (c # s) = substr \<or> contains s substr)"

text \<open>
  \<^verbatim>\<open>startTorrent\<close> panics on a torrent without info or storage. Unless the client does
  not upload, it marks every piece as queued for hashing; the goroutine that then
  verifies the pieces waits for the client's lock and so runs after the caller.
\<close>

definition startTorrent :: "Client \<Rightarrow> torrent \<Rightarrow> error + torrent" where
  "startTorrent cl t =
     (if Info t = None \<or> torrent_data t = None then Inl PanicNope
      else if \<not> noUpload cl then Inr (t\<lparr>Pieces := map (\<lambda>p. p\<lparr>QueuedForHash := True\<rparr>) (Pieces t)\<rparr>)
      else Inr t)"

text \<open>The client's \<^verbatim>\<open>setStorage\<close>, which calls the torrent's.\<close>

definition setStorage :: "environment \<Rightarrow> Client \<Rightarrow> torrent \<Rightarrow> nat option \<Rightarrow> error + (error option \<times> torrent)" where
  "setStorage env cl t td =
     (case torrent_setStorage env t td of
        (Some e, t1) \<Rightarrow> Inr (Some e, t1)
      | (None, t1) \<Rightarrow>
          (case startTorrent cl t1 of
             Inl e \<Rightarrow> Inl e
           | Inr t2 \<Rightarrow> Inr (None, t2)))"

text \<open>
  \<^verbatim>\<open>setMetaData\<close> on the torrent at address \<open>p\<close>. Saving the torrent file only logs its
  error, and the broadcast wakes other goroutines. The result of \<^verbatim>\<open>dropTorrent\<close> is not
  read. Closing the channel \<^verbatim>\<open>gotMetainfo\<close> panics if it is closed already.
\<close>

definition setMetaData ::
  "environment \<Rightarrow> Client \<Rightarrow> nat \<Rightarrow> Info \<Rightarrow> byte list \<Rightarrow> error + (error option \<times> Client)" where
  "setMetaData env cl p md bytes =
     (case objs cl p of
        None \<Rightarrow> Inl PanicNilDereference
      | Some t \<Rightarrow>
          (case torrent_setMetadata env t md bytes of
             (Some e, t1) \<Rightarrow> Inr (Some e, cl\<lparr>objs := (objs cl)(p \<mapsto> t1)\<rparr>)
           | (None, t1) \<Rightarrow>
               (let cl1 = cl\<lparr>objs := (objs cl)(p \<mapsto> t1)\<rparr> in
                if contains (toLower (Name md)) ''porn'' then
                  (case dropTorrent env cl1 (InfoHash t1) of
                     Inl e \<Rightarrow> Inl e
                   | Inr (_, cl2) \<Rightarrow> Inr (Some ErrNoPornPlx, cl2))
                else if gotMetainfo t1 then Inl PanicCloseOfClosedChannel
                else
                  (case setStorage env cl1 (t1\<lparr>gotMetainfo := True\<rparr>) (torrentDataOpener env md) of
                     Inl e \<Rightarrow> Inl e
                   | Inr (err, t2) \<Rightarrow> Inr (err, cl1\<lparr>objs := (objs cl1)(p \<mapsto> t2)\<rparr>)))))"

text \<open>
  \<^verbatim>\<open>completedMetadata\<close> returns nothing; the model returns the line it logs last, which
  tells the four ways through the function apart, and the client.
\<close>

datatype metadataLog = BadMetadata | ErrorUnmarshalling | ErrorSetting | GotMetadata

definition invalidateAt :: "Client \<Rightarrow> nat \<Rightarrow> error + Client" where
  "invalidateAt cl p =
     (case objs cl p of
        None \<Rightarrow> Inl PanicNilDereference
      | Some t \<Rightarrow> Inr (cl\<lparr>objs := (objs cl)(p \<mapsto> invalidateMetadata t)\<rparr>))"

definition completedMetadata :: "environment \<Rightarrow> Client \<Rightarrow> nat \<Rightarrow> error + (metadataLog \<times> Client)" where
  "completedMetadata env cl p =
     (case objs cl p of
        None \<Rightarrow> Inl PanicNilDereference
      | Some t \<Rightarrow>
          if sha1 (MetaData t) \<noteq> InfoHash t then
            (case invalidateAt cl p of Inl e \<Rightarrow> Inl e | Inr cl' \<Rightarrow> Inr (BadMetadata, cl'))
          else
            (case bencodeUnmarshalInfo env (MetaData t) of
               Inl err \<Rightarrow>
                 (case invalidateAt cl p of Inl e \<Rightarrow> Inl e | Inr cl' \<Rightarrow> Inr (ErrorUnmarshalling, cl'))
             | Inr info \<Rightarrow>
                 (case setMetaData env cl p info (MetaData t) of
                    Inl e \<Rightarrow> Inl e
                  | Inr (Some err, cl1) \<Rightarrow>
                      (case invalidateAt cl1 p of Inl e \<Rightarrow> Inl e | Inr cl' \<Rightarrow> Inr (ErrorSetting, cl'))
                  | Inr (None, cl1) \<Rightarrow> Inr (GotMetadata, cl1))))"

subsection \<open>Adding a torrent\<close>

text \<open>
  \<^verbatim>\<open>metainfo.InfoEx\<close> and \<^verbatim>\<open>TorrentSpec\<close>; the fields of the spec carry the prefix
  \<open>spec_\<close>, as the torrent has fields of the same names.
\<close>

record InfoEx =
  infoEx_Info :: Info
  infoEx_Bytes :: "byte list"

record TorrentSpec =
  spec_Trackers :: "string list list"
  spec_InfoHash :: "byte list"
  spec_Info :: "InfoEx option"
  spec_DisplayName :: string

text \<open>
  \<^verbatim>\<open>newTorrent\<close> always returns a nil error; it makes the channels, which are open. A
  torrent without storage and info has no complete piece.
\<close>

definition newTorrent :: "byte list \<Rightarrow> torrent" where
  "newTorrent ih =
     \<lparr>InfoHash = ih, DisplayName = [], MetaData = [], Info = None, Pieces = [], Conns = [],
      Trackers = [], torrent_data = None, ceasingNetworking = False, gotMetainfo = False,
      pieceComplete = (\<lambda>i. False), havePiece = (\<lambda>i. False)\<rparr>"

text \<open>
  The result of \<^verbatim>\<open>AddTorrentSpec\<close>: the address in the handle \<^verbatim>\<open>T\<close> (\<open>None\<close> for nil),
  \<^verbatim>\<open>new\<close> and \<^verbatim>\<open>err\<close>, with the client. The prune timer and the two announce goroutines
  that it starts at the end are not in the model.
\<close>

definition AddTorrentSpec ::
  "environment \<Rightarrow> Client \<Rightarrow> TorrentSpec \<Rightarrow> error + ((nat option \<times> bool \<times> error option) \<times> Client)" where
  "AddTorrentSpec env cl spec =
     (case torrents cl (spec_InfoHash spec) of
        Some t \<Rightarrow> Inr ((Some t, False, None), cl)
      | None \<Rightarrow>
          if spec_InfoHash spec \<in> bannedTorrents cl then Inr ((None, True, Some ErrBannedTorrent), cl)
          else
            (let p = nextObj cl;
                 t0 = newTorrent (spec_InfoHash spec);
                 t1 = (if spec_DisplayName spec \<noteq> [] then t0\<lparr>DisplayName := spec_DisplayName spec\<rparr> else t0);
                 cl1 = cl\<lparr>objs := (objs cl)(p \<mapsto> t1), nextObj := Suc p\<rparr>;
                 r = (case spec_Info spec of
                        Some ie \<Rightarrow> setMetaData env cl1 p (infoEx_Info ie) (infoEx_Bytes ie)
                      | None \<Rightarrow>
                          (case torrentCacheMetaInfo env (spec_InfoHash spec) of
                             (Some e, mi) \<Rightarrow> Inr (Some e, cl1)
                           | (None, None) \<Rightarrow> Inr (None, cl1)
                           | (None, Some (announceList, info, bytes)) \<Rightarrow>
                               setMetaData env
                                 (cl1\<lparr>objs := (objs cl1)(p \<mapsto> addTrackers env t1 announceList)\<rparr>)
                                 p info bytes))
             in case r of
                  Inl e \<Rightarrow> Inl e
                | Inr (Some e, cl2) \<Rightarrow> Inr ((None, True, Some e), cl2)
                | Inr (None, cl2) \<Rightarrow>
                    (case objs cl2 p of
                       None \<Rightarrow> Inl PanicNilDereference
                     | Some t2 \<Rightarrow>
                         Inr ((Some p, True, None),
                              cl2\<lparr>torrents := (torrents cl2)(spec_InfoHash spec \<mapsto> p),
                                  objs := (objs cl2)(p \<mapsto> addTrackers env t2 (spec_Trackers spec))\<rparr>))))"

section \<open>Instances for the client\<close>

text \<open>
  An environment. The decoder rejects its input. \<^verbatim>\<open>t.setMetadata\<close> installs the info and
  the bytes, the opener returns a storage and \<^verbatim>\<open>t.setStorage\<close> installs it, \<^verbatim>\<open>t.close\<close>
  succeeds, the cache is empty and trackers are appended. A piece is wanted when it has
  a priority and is not complete, all pieces are there when each is complete, a piece
  is one chunk of 16 KiB, a connection accepts a request and keeps it, a piece pended
  on a connection joins its request order, and posting leaves the connection as it is.
\<close>

definition rejectingEnvironment :: environment where
  "rejectingEnvironment =
     \<lparr>bencodeUnmarshalInfo = (\<lambda>bs. Inl (ErrExternal ''bencode: syntax error'')),
      torrent_setMetadata = (\<lambda>t md bs. (None, t\<lparr>MetaData := bs, Info := Some md\<rparr>)),
      torrentDataOpener = (\<lambda>md. Some 0),
      torrent_setStorage = (\<lambda>t td. (None, t\<lparr>torrent_data := td\<rparr>)),
      torrent_close = (\<lambda>t. (None, t)),
      torrentCacheMetaInfo = (\<lambda>ih. (None, None)),
      addTrackers = (\<lambda>t l. t\<lparr>Trackers := Trackers t @ l\<rparr>),
      torrent_wantPiece = (\<lambda>t i. 0 \<le> i \<and> i < int (length (Pieces t)) \<and>
                                  Priority (Pieces t ! nat i) \<noteq> piecePriorityNone \<and>
                                  \<not> pieceComplete t (nat i)),
      torrent_haveAllPieces = (\<lambda>t. list_all (pieceComplete t) [0..<length (Pieces t)]),
      torrent_pendAllChunkSpecs = (\<lambda>t i. [(0, 16384)]),
      shuffledPendingChunkSpecs = PendingChunkSpecs,
      conn_Request = (\<lambda>c r. (True, if r \<in> set (Requests c) then c
                                     else c\<lparr>Requests := Requests c @ [r]\<rparr>)),
      conn_pendPiece = (\<lambda>c i pr. if i \<in> set (pieceRequestOrder c) then c
                                  else c\<lparr>pieceRequestOrder := pieceRequestOrder c @ [i]\<rparr>),
      conn_SetInterested = (\<lambda>c b. c\<lparr>Interested := b\<rparr>),
      conn_Post = (\<lambda>c m. c)\<rparr>"

text \<open>
  The same environment with a decoder: the bencode decoder of the section above, and
  an info read from a dictionary with a byte string at \<^verbatim>\<open>name\<close> and an integer at
  \<^verbatim>\<open>piece length\<close>. Two info dictionaries, one of them with a name that \<open>setMetaData\<close>
  refuses.
\<close>

definition infoOfValue :: "bvalue \<Rightarrow> error + Info" where
  "infoOfValue v =
     (case v of
        BDict kvs \<Rightarrow>
          (case (map_of kvs (asciiBytes ''name''), map_of kvs (asciiBytes ''piece length'')) of
             (Some (BString n), Some (BInt l)) \<Rightarrow>
               Inr \<lparr>Name = map (\<lambda>b. char_of (unat b)) n, PieceLength = word_of_int l\<rparr>
           | _ \<Rightarrow> Inl (ErrExternal ''bencode: value is not appropriate for type''))
      | _ \<Rightarrow> Inl (ErrExternal ''bencode: value is not appropriate for type''))"

definition unmarshalInfo :: "byte list \<Rightarrow> error + Info" where
  "unmarshalInfo bs = (case Unmarshal bs of Inl e \<Rightarrow> Inl e | Inr v \<Rightarrow> infoOfValue v)"

definition bencodeEnvironment :: environment where
  "bencodeEnvironment = rejectingEnvironment\<lparr>bencodeUnmarshalInfo := unmarshalInfo\<rparr>"

definition infoDict :: "string \<Rightarrow> bvalue" where
  "infoDict name =
     BDict [(asciiBytes ''name'', BString (asciiBytes name)), (asciiBytes ''piece length'', BInt 16384)]"

text \<open>
  A client with one torrent, known by its infohash only, whose metadata buffer holds
  the bytes \<open>m\<close> with \<open>sha1 m\<close> as infohash.
\<close>

definition magnetTorrent :: "byte list \<Rightarrow> torrent" where
  "magnetTorrent m = (newTorrent (sha1 m))\<lparr>MetaData := m\<rparr>"

definition magnetClient :: "byte list \<Rightarrow> Client" where
  "magnetClient m =
     \<lparr>noUpload = False, objs = [0 \<mapsto> magnetTorrent m], nextObj = 1, torrents = [sha1 m \<mapsto> 0],
      bannedTorrents = {}\<rparr>"

text \<open>
  What a run of \<open>completedMetadata\<close> leaves of the torrent at \<open>p\<close>: the line logged
  and the info; and whether the infohash \<open>ih\<close> is still registered.
\<close>

definition metadataOutcome :: "error + (metadataLog \<times> Client) \<Rightarrow> nat \<Rightarrow> (metadataLog \<times> Info option) option" where
  "metadataOutcome r p =
     (case r of
        Inl e \<Rightarrow> None
      | Inr (l, cl) \<Rightarrow> (case objs cl p of None \<Rightarrow> None | Some t \<Rightarrow> Some (l, Info t)))"

definition registeredAfter :: "error + (metadataLog \<times> Client) \<Rightarrow> byte list \<Rightarrow> bool option" where
  "registeredAfter r ih =
     (case r of
        Inl e \<Rightarrow> None
      | Inr (l, cl) \<Rightarrow> Some (torrents cl ih \<noteq> None))"

text \<open>A client whose one registered infohash is also banned, and a spec for it.\<close>

definition bannedClient :: Client where
  "bannedClient =
     \<lparr>noUpload = False, objs = [0 \<mapsto> newTorrent (replicate 20 7)], nextObj = 1,
      torrents = [replicate 20 7 \<mapsto> 0], bannedTorrents = {replicate 20 7}\<rparr>"

definition bannedSpec :: TorrentSpec where
  "bannedSpec =
     \<lparr>spec_Trackers = [], spec_InfoHash = replicate 20 7, spec_Info = None, spec_DisplayName = []\<rparr>"

text \<open>
  The reader's target for piece \<open>i\<close>, as the spec words it: now for the piece \<open>index\<close>
  that contains the offset, next for the piece after it, readahead for the \<open>n\<close> pieces
  that follow, with \<open>n\<close> = \<open>\<lceil>readahead / pieceLen\<rceil> - 1\<close>.
\<close>

definition readTarget :: "int \<Rightarrow> int \<Rightarrow> nat \<Rightarrow> piecePriority" where
  "readTarget index n i =
     (if int i = index then piecePriorityNow
      else if int i = index + 1 then piecePriorityNext
      else if index + 1 < int i \<and> int i \<le> index + 1 + n then piecePriorityReadahead
      else piecePriorityNone)"

text \<open>
  A torrent of three pieces of 16 KiB, the first of them complete, without connections,
  in a client that uploads; and the same torrent with one connection, whose peer has
  every piece, and with one that still holds a request for the first piece.
\<close>

definition freshPiece :: piece where
  "freshPiece =
     \<lparr>Priority = piecePriorityNone, EverHashed = True, Hashing = False, QueuedForHash = False,
      PendingChunkSpecs = []\<rparr>"

definition streamedTorrent :: torrent where
  "streamedTorrent =
     (newTorrent (replicate 20 7))
       \<lparr>Info := Some \<lparr>Name = ''a'', PieceLength = 16384\<rparr>,
        Pieces := [freshPiece, freshPiece, freshPiece],
        pieceComplete := (\<lambda>i. i = 0), havePiece := (\<lambda>i. i = 0)\<rparr>"

definition streamingClient :: Client where
  "streamingClient =
     \<lparr>noUpload = False, objs = [0 \<mapsto> streamedTorrent], nextObj = 1,
      torrents = [replicate 20 7 \<mapsto> 0], bannedTorrents = {}\<rparr>"

definition idleConn :: connection where
  "idleConn =
     \<lparr>Requests = [], Interested = False, PeerChoked = False, requestsLowWater = 0,
      pieceRequestOrder = [], PeerHasPiece = (\<lambda>i. True)\<rparr>"

definition connectedTorrent :: torrent where
  "connectedTorrent = streamedTorrent\<lparr>Conns := [idleConn]\<rparr>"

definition requestingTorrent :: torrent where
  "requestingTorrent = streamedTorrent\<lparr>Conns := [idleConn, idleConn\<lparr>Requests := [(0, (0, 16384))]\<rparr>]\<rparr>"

definition prioritiesAfter :: "error + torrent \<Rightarrow> piecePriority list option" where
  "prioritiesAfter r = (case r of Inl e \<Rightarrow> None | Inr t \<Rightarrow> Some (map Priority (Pieces t)))"

definition requestsAfter :: "error + torrent \<Rightarrow> request list list option" where
  "requestsAfter r = (case r of Inl e \<Rightarrow> None | Inr t \<Rightarrow> Some (map Requests (Conns t)))"

definition panicOfRead :: "error + torrent \<Rightarrow> error option" where
  "panicOfRead r = (case r of Inl e \<Rightarrow> Some e | Inr t \<Rightarrow> None)"

text \<open>A torrent of two pieces whose piece length is the largest \<^verbatim>\<open>int64\<close>.\<close>

definition hugePieceTorrent :: torrent where
  "hugePieceTorrent =
     (newTorrent (replicate 20 7))
       \<lparr>Info := Some \<lparr>Name = ''a'', PieceLength = 0x7FFFFFFFFFFFFFFF\<rparr>,
        Pieces := [freshPiece, freshPiece]\<rparr>"

section \<open>The comparison cascade of package multiless\<close>

text \<open>
  \<^verbatim>\<open>order.go\<close> builds its two comparison functions with the external package
  \<^verbatim>\<open>github.com/anacrolix/multiless\<close>. A computation is undecided until the first pair of
  unequal operands; from then on it keeps that verdict. \<^verbatim>\<open>Bool(l, r)\<close> orders
  \<open>False\<close> before \<open>True\<close>. \<^verbatim>\<open>MustLess\<close> panics on a computation that never
  met unequal operands.
\<close>

datatype Computation = Undecided | Decided bool

definition eagerSameLess :: "Computation \<Rightarrow> bool \<Rightarrow> bool \<Rightarrow> Computation" where
  "eagerSameLess me same lt =
     (case me of Decided b \<Rightarrow> Decided b
      | Undecided \<Rightarrow> if same then Undecided else Decided lt)"

definition ml_Int :: "Computation \<Rightarrow> int \<Rightarrow> int \<Rightarrow> Computation" where
  "ml_Int me l r = eagerSameLess me (l = r) (l < r)"

definition ml_Int64 :: "Computation \<Rightarrow> int \<Rightarrow> int \<Rightarrow> Computation" where
  "ml_Int64 me l r = eagerSameLess me (l = r) (l < r)"

definition ml_Uintptr :: "Computation \<Rightarrow> nat \<Rightarrow> nat \<Rightarrow> Computation" where
  "ml_Uintptr me l r = eagerSameLess me (l = r) (l < r)"

definition ml_Float64 :: "Computation \<Rightarrow> real \<Rightarrow> real \<Rightarrow> Computation" where
  "ml_Float64 me l r = eagerSameLess me (l = r) (l < r)"

definition ml_Bool :: "Computation \<Rightarrow> bool \<Rightarrow> bool \<Rightarrow> Computation" where
  "ml_Bool me l r = eagerSameLess me (l = r) r"

definition MustLess :: "Computation \<Rightarrow> error + bool" where
  "MustLess me = (case me of Undecided \<Rightarrow> Inl PanicMustLess | Decided b \<Rightarrow> Inr b)"

section \<open>sort.Slice\<close>

text \<open>
  \<^verbatim>\<open>sort.Slice\<close> is a comparison sort. Both comparison functions of \<^verbatim>\<open>order.go\<close> end in
  \<^verbatim>\<open>MustLess\<close>, so a call either meets two elements that the cascade cannot tell apart
  and panics, or sorts by a strict total order, where every comparison sort returns the
  same slice. The model is insertion sort with a comparison that can panic.
\<close>

fun insertBy :: "('a \<Rightarrow> 'a \<Rightarrow> error + bool) \<Rightarrow> 'a \<Rightarrow> 'a list \<Rightarrow> error + 'a list" where
  "insertBy lt x [] = Inr [x]"
| "insertBy lt x (y # ys) =
     (case lt x y of
        Inl e \<Rightarrow> Inl e
      | Inr b \<Rightarrow>
          if b then Inr (x # y # ys)
          else (case insertBy lt x ys of Inl e \<Rightarrow> Inl e | Inr zs \<Rightarrow> Inr (y # zs)))"

fun sortSlice :: "('a \<Rightarrow> 'a \<Rightarrow> error + bool) \<Rightarrow> 'a list \<Rightarrow> error + 'a list" where
  "sortSlice lt [] = Inr []"
| "sortSlice lt (x # xs) =
     (case sortSlice lt xs of Inl e \<Rightarrow> Inl e | Inr ys \<Rightarrow> insertBy lt x ys)"

section \<open>The scheduler's input (package request_strategy)\<close>

text \<open>
  \<^verbatim>\<open>pp.Integer\<close> is an unsigned 32-bit integer. A chunk is (begin, length); a request is
  (piece index, chunk).
\<close>

type_synonym Integer = "32 word"
type_synonym ChunkSpec = "Integer \<times> Integer"
type_synonym Request = "Integer \<times> ChunkSpec"

text \<open>
  A peer snapshot. \<open>DownloadRate\<close> is a \<^verbatim>\<open>float64\<close> that the scheduler only compares; it is
  a real here (no NaN). \<open>IdUintptr\<close> is \<^verbatim>\<open>Id.Uintptr()\<close>, the only use the scheduler makes
  of \<^verbatim>\<open>Id\<close> besides keying its result by it.

  Modelled from the spec: the methods \<^verbatim>\<open>canRequestPiece\<close> and
  \<^verbatim>\<open>pieceAllowedFastOrDefault\<close> of \<^verbatim>\<open>Peer\<close> are declared outside the given sources. The
  spec lists both among the attributes of a peer snapshot
  (\<^verbatim>\<open>hasPiece(i), hasExistingRequest(r), canRequestPiece(i), pieceAllowedFastOrDefault(i)\<close>),
  so they are fields of the snapshot.
\<close>

record Peer =
  HasPiece :: "nat \<Rightarrow> bool"
  MaxRequests :: int
  HasExistingRequest :: "(Request \<Rightarrow> bool) option"
  Choking :: bool
  DownloadRate :: real
  Age :: int
  IdUintptr :: nat
  canRequestPiece :: "nat \<Rightarrow> bool"
  pieceAllowedFastOrDefault :: "nat \<Rightarrow> bool"

text \<open>
  A piece. \<open>IterPendingChunks\<close> is a Go callback iterator (possibly nil); it is the list
  of chunks it yields, in order. \<open>Length\<close> is an \<^verbatim>\<open>int64\<close> that enters the scheduler's
  arithmetic, so it is a 64-bit word compared as a signed value.
\<close>

record Piece =
  Request :: bool
  Priority :: int
  Partial :: bool
  Availability :: int
  Length :: "64 word"
  NumPendingChunks :: int
  IterPendingChunks :: "ChunkSpec list option"

text \<open>
  A torrent. \<open>Capacity\<close> is a pointer to a function that returns a pointer to the bytes
  left in the storage; the scheduler uses the pointer as a key, so two torrents share a
  capacity when they hold the same pointer. The pointer is a number here, and the
  function behind it is the parameter \<open>capacity\<close> of \<open>DoRequests\<close>.
\<close>

record Torrent =
  Pieces :: "Piece list"
  Capacity :: "nat option"
  Peers :: "Peer list"
  StableId :: nat
  MaxUnverifiedBytes :: "64 word"

section \<open>The scheduler's state\<close>

record PeerNextRequestState =
  Interested :: bool
  Requests :: "Request list"

text \<open>
  \<open>Requests\<close> is a Go set (\<^verbatim>\<open>map[Request]struct{}\<close>): a list without duplicates,
  since \<open>addNextRequest\<close> panics on a request that is already there.

  Go's embedded structs are fields here: \<open>rp_Peer\<close> in \<^verbatim>\<open>requestsPeer\<close>, \<open>ot_Torrent\<close>
  in \<^verbatim>\<open>orderTorrent\<close>, \<open>piece_Piece\<close> in \<^verbatim>\<open>pieceRequestOrderPiece\<close>. The fields \<^verbatim>\<open>t\<close>,
  \<^verbatim>\<open>index\<close> and \<^verbatim>\<open>peers\<close> carry a prefix, as a record field is a constant.
\<close>

record requestsPeer =
  rp_Peer :: Peer
  nextState :: PeerNextRequestState
  requestablePiecesRemaining :: int

record orderTorrent =
  ot_Torrent :: Torrent
  unverifiedBytes :: "64 word"
  storageLeft :: "nat option"
  ot_peers :: "requestsPeer list"

text \<open>\<open>piece_t\<close> points to an \<^verbatim>\<open>orderTorrent\<close>: its position in \<^verbatim>\<open>orderTorrents\<close>.\<close>

record pieceRequestOrderPiece =
  piece_t :: nat
  piece_index :: nat
  piece_Piece :: Piece

section \<open>ClientPieceOrder.less and sort\<close>

text \<open>\<^verbatim>\<open>less\<close> is \<open>less_piece\<close> here and \<^verbatim>\<open>sort\<close> is \<open>sort_pieces\<close>: both names are taken in HOL.\<close>

definition less_piece :: "orderTorrent list \<Rightarrow> pieceRequestOrderPiece \<Rightarrow> pieceRequestOrderPiece \<Rightarrow> error + bool" where
  "less_piece ots i j =
     MustLess
       (ml_Uintptr
         (ml_Int
           (ml_Int64
             (ml_Bool
               (ml_Int Undecided (Priority (piece_Piece j)) (Priority (piece_Piece i)))
               (Partial (piece_Piece j)) (Partial (piece_Piece i)))
             (Availability (piece_Piece i)) (Availability (piece_Piece j)))
           (int (piece_index i)) (int (piece_index j)))
         (StableId (ot_Torrent (ots ! piece_t i))) (StableId (ot_Torrent (ots ! piece_t j))))"

definition sort_pieces :: "orderTorrent list \<Rightarrow> pieceRequestOrderPiece list \<Rightarrow> error + pieceRequestOrderPiece list" where
  "sort_pieces ots pieces = sortSlice (less_piece ots) pieces"

section \<open>requestsPeer\<close>

definition canFitRequest :: "requestsPeer \<Rightarrow> bool" where
  "canFitRequest rp \<longleftrightarrow> int (length (Requests (nextState rp))) < MaxRequests (rp_Peer rp)"

definition addNextRequest :: "requestsPeer \<Rightarrow> Request \<Rightarrow> error + requestsPeer" where
  "addNextRequest rp r =
     (if r \<in> set (Requests (nextState rp)) then Inl PanicShouldOnlyAddOnce
      else Inr (rp\<lparr>nextState := (nextState rp)\<lparr>Requests := Requests (nextState rp) @ [r]\<rparr>\<rparr>))"

definition deleteRequest :: "requestsPeer \<Rightarrow> Request \<Rightarrow> requestsPeer" where
  "deleteRequest rp r = rp\<lparr>nextState := (nextState rp)\<lparr>Requests := removeAll r (Requests (nextState rp))\<rparr>\<rparr>"

definition setInterested :: "requestsPeer \<Rightarrow> requestsPeer" where
  "setInterested rp = rp\<lparr>nextState := (nextState rp)\<lparr>Interested := True\<rparr>\<rparr>"

section \<open>allocatePendingChunks\<close>

text \<open>
  The Go function works on pointers: \<^verbatim>\<open>peers\<close> is a slice of pointers to the torrent's
  \<^verbatim>\<open>requestsPeer\<close> objects, and \<^verbatim>\<open>peersForPiece\<close> a slice of pointers to one fresh
  \<^verbatim>\<open>peersForPieceRequests\<close> object per peer. A pointer is the position of the peer in
  \<^verbatim>\<open>peers\<close>: \<open>peersHeap\<close> holds the \<^verbatim>\<open>requestsPeer\<close> objects, \<open>requestsInPiece\<close> the
  counter of each \<^verbatim>\<open>peersForPieceRequests\<close> object, and \<open>peersForPiece\<close> is the slice that
  \<^verbatim>\<open>sort.Slice\<close> reorders. \<open>preallocated\<close> is a Go map from chunk to pointer, kept in
  insertion order.
\<close>

record allocState =
  peersHeap :: "requestsPeer list"
  requestsInPiece :: "int list"
  peersForPiece :: "nat list"
  preallocated :: "(ChunkSpec \<times> nat) list"
  pendingChunksRemaining :: int

definition pfp_addNextRequest :: "allocState \<Rightarrow> nat \<Rightarrow> Request \<Rightarrow> error + allocState" where
  "pfp_addNextRequest s k r =
     (case addNextRequest (peersHeap s ! k) r of
        Inl e \<Rightarrow> Inl e
      | Inr rp \<Rightarrow>
          Inr (s\<lparr>peersHeap := (peersHeap s)[k := rp],
                 requestsInPiece := (requestsInPiece s)[k := requestsInPiece s ! k + 1]\<rparr>))"

definition peerLess :: "allocState \<Rightarrow> Request option \<Rightarrow> nat \<Rightarrow> nat \<Rightarrow> error + bool" where
  "peerLess s byHasRequest i j =
     (let pi = peersHeap s ! i; pj = peersHeap s ! j;
          ml = ml_Float64
                 (ml_Int
                   (ml_Int Undecided (requestsInPiece s ! i) (requestsInPiece s ! j))
                   (requestablePiecesRemaining pi) (requestablePiecesRemaining pj))
                 (DownloadRate (rp_Peer pj)) (DownloadRate (rp_Peer pi));
          ml' = (case byHasRequest of
                   None \<Rightarrow> ml
                 | Some r \<Rightarrow>
                     ml_Bool ml (r \<in> set (Requests (nextState pj))) (r \<in> set (Requests (nextState pi))))
      in MustLess
           (ml_Uintptr
             (ml_Int64 ml' (Age (rp_Peer pj)) (Age (rp_Peer pi)))
             (IdUintptr (rp_Peer pi)) (IdUintptr (rp_Peer pj))))"

definition sortPeersForPiece :: "allocState \<Rightarrow> Request option \<Rightarrow> error + allocState" where
  "sortPeersForPiece s byHasRequest =
     (case sortSlice (peerLess s byHasRequest) (peersForPiece s) of
        Inl e \<Rightarrow> Inl e
      | Inr ks \<Rightarrow> Inr (s\<lparr>peersForPiece := ks\<rparr>))"

text \<open>Phase A: the inner loop over the peers, for one pending chunk.\<close>

fun preallocPeers :: "nat \<Rightarrow> ChunkSpec \<Rightarrow> nat list \<Rightarrow> allocState \<Rightarrow> error + allocState" where
  "preallocPeers idx spec [] s = Inr s"
| "preallocPeers idx spec (k # ks) s =
     (let peer = peersHeap s ! k; req = (of_nat idx, spec) in
      if (case HasExistingRequest (rp_Peer peer) of None \<Rightarrow> True | Some h \<Rightarrow> \<not> h req)
        then preallocPeers idx spec ks s
      else if \<not> canFitRequest peer then preallocPeers idx spec ks s
      else if \<not> canRequestPiece (rp_Peer peer) idx then preallocPeers idx spec ks s
      else (case pfp_addNextRequest (s\<lparr>preallocated := AList.update spec k (preallocated s)\<rparr>) k req of
              Inl e \<Rightarrow> Inl e
            | Inr s' \<Rightarrow> preallocPeers idx spec ks s'))"

fun preallocChunks :: "nat \<Rightarrow> ChunkSpec list \<Rightarrow> allocState \<Rightarrow> error + allocState" where
  "preallocChunks idx [] s = Inr s"
| "preallocChunks idx (spec # specs) s =
     (case preallocPeers idx spec (peersForPiece s) s of
        Inl e \<Rightarrow> Inl e
      | Inr s' \<Rightarrow> preallocChunks idx specs s')"

text \<open>
  Phases B and C share the loop that gives a request to the first peer of the sorted
  slice that can take it. The result says whether a peer took it (the Go loops leave
  with \<^verbatim>\<open>return\<close> and \<^verbatim>\<open>continue chunk\<close> then).
\<close>

fun assignFirst :: "nat \<Rightarrow> Request \<Rightarrow> nat list \<Rightarrow> allocState \<Rightarrow> error + (bool \<times> allocState)" where
  "assignFirst idx req [] s = Inr (False, s)"
| "assignFirst idx req (k # ks) s =
     (let peer = peersHeap s ! k in
      if \<not> canFitRequest peer then assignFirst idx req ks s
      else if \<not> HasPiece (rp_Peer peer) idx then assignFirst idx req ks s
      else if \<not> pieceAllowedFastOrDefault (rp_Peer peer) idx then
        (let s1 = s\<lparr>peersHeap := (peersHeap s)[k := setInterested peer]\<rparr> in
         if Choking (rp_Peer peer) then assignFirst idx req ks s1
         else (case pfp_addNextRequest s1 k req of
                 Inl e \<Rightarrow> Inl e | Inr s2 \<Rightarrow> Inr (True, s2)))
      else (case pfp_addNextRequest s k req of
              Inl e \<Rightarrow> Inl e | Inr s2 \<Rightarrow> Inr (True, s2)))"

text \<open>Phase B: the chunks that no peer holds yet; \<open>fillChunk\<close> is the body of the loop.\<close>

definition fillChunk :: "nat \<Rightarrow> ChunkSpec \<Rightarrow> allocState \<Rightarrow> error + allocState" where
  "fillChunk idx chunk s =
     (if map_of (preallocated s) chunk \<noteq> None then Inr s
      else
        (case sortPeersForPiece s None of
           Inl e \<Rightarrow> Inl e
         | Inr s1 \<Rightarrow>
             (case assignFirst idx (of_nat idx, chunk) (peersForPiece s1) s1 of
                Inl e \<Rightarrow> Inl e
              | Inr (_, s2) \<Rightarrow>
                  Inr (s2\<lparr>pendingChunksRemaining := pendingChunksRemaining s2 - 1\<rparr>))))"

fun fillChunks :: "nat \<Rightarrow> ChunkSpec list \<Rightarrow> allocState \<Rightarrow> error + allocState" where
  "fillChunks idx [] s = Inr s"
| "fillChunks idx (chunk # chunks) s =
     (case fillChunk idx chunk s of
        Inl e \<Rightarrow> Inl e
      | Inr s' \<Rightarrow> fillChunks idx chunks s')"

text \<open>
  Phase C: every preallocated chunk is taken from its holder and given to the first
  peer of the slice sorted for that chunk; \<open>stealChunk\<close> is the body of the loop. The
  list is the sequence in which Go's \<^verbatim>\<open>range\<close> visits the map \<^verbatim>\<open>preallocated\<close>.
\<close>

definition stealChunk :: "nat \<Rightarrow> ChunkSpec \<times> nat \<Rightarrow> allocState \<Rightarrow> error + allocState" where
  "stealChunk idx entry s =
     (let chunk = fst entry; prePeer = snd entry; req = (of_nat idx, chunk);
          s0 = s\<lparr>requestsInPiece := (requestsInPiece s)[prePeer := requestsInPiece s ! prePeer - 1]\<rparr> in
      case sortPeersForPiece s0 (Some req) of
        Inl e \<Rightarrow> Inl e
      | Inr s1 \<Rightarrow>
          (let s2 = s1\<lparr>peersHeap := (peersHeap s1)[prePeer := deleteRequest (peersHeap s1 ! prePeer) req]\<rparr> in
           case assignFirst idx req (peersForPiece s2) s2 of
             Inl e \<Rightarrow> Inl e
           | Inr (took, s3) \<Rightarrow>
               Inr (if took then s3\<lparr>pendingChunksRemaining := pendingChunksRemaining s3 - 1\<rparr> else s3)))"

fun stealChunks :: "nat \<Rightarrow> (ChunkSpec \<times> nat) list \<Rightarrow> allocState \<Rightarrow> error + allocState" where
  "stealChunks idx [] s = Inr s"
| "stealChunks idx (entry # rest) s =
     (case stealChunk idx entry s of
        Inl e \<Rightarrow> Inl e
      | Inr s' \<Rightarrow> stealChunks idx rest s')"

definition iterPendingChunksWrapper :: "Piece \<Rightarrow> ChunkSpec list" where
  "iterPendingChunksWrapper p = (case IterPendingChunks p of None \<Rightarrow> [] | Some cs \<Rightarrow> cs)"

definition releasePiece :: "nat \<Rightarrow> requestsPeer \<Rightarrow> requestsPeer" where
  "releasePiece idx rp =
     (if canRequestPiece (rp_Peer rp) idx
      then rp\<lparr>requestablePiecesRemaining := requestablePiecesRemaining rp - 1\<rparr> else rp)"

text \<open>
  \<open>mapOrder\<close> is Go's iteration order over \<^verbatim>\<open>preallocated\<close>, which the language leaves
  open: it takes the entries of the map and returns them in the order of the visit. The
  deferred function that lowers \<^verbatim>\<open>requestablePiecesRemaining\<close> runs on the way out; after a
  panic its effect is lost with the state.
\<close>

definition allocatePendingChunks ::
  "((ChunkSpec \<times> nat) list \<Rightarrow> (ChunkSpec \<times> nat) list) \<Rightarrow> pieceRequestOrderPiece \<Rightarrow> requestsPeer list
     \<Rightarrow> error + requestsPeer list" where
  "allocatePendingChunks mapOrder p peers =
     (let idx = piece_index p;
          chunks = iterPendingChunksWrapper (piece_Piece p);
          s = \<lparr>peersHeap = peers,
               requestsInPiece = map (\<lambda>_. 0) peers,
               peersForPiece = [0..<length peers],
               preallocated = [],
               pendingChunksRemaining = 0\<rparr> in
      case preallocChunks idx chunks s of
        Inl e \<Rightarrow> Inl e
      | Inr sA \<Rightarrow>
          (case fillChunks idx chunks
                  (sA\<lparr>pendingChunksRemaining := NumPendingChunks (piece_Piece p)\<rparr>) of
             Inl e \<Rightarrow> Inl e
           | Inr sB \<Rightarrow>
               (case stealChunks idx (mapOrder (preallocated sB)) sB of
                  Inl e \<Rightarrow> Inl e
                | Inr sC \<Rightarrow>
                    if pendingChunksRemaining sC \<noteq> 0
                    then Inl (PanicPendingChunksRemaining (pendingChunksRemaining sC))
                    else Inr (map (releasePiece idx) (peersHeap sC)))))"

section \<open>DoRequests\<close>

definition newRequestsPeer :: "Peer \<Rightarrow> requestsPeer" where
  "newRequestsPeer p =
     \<lparr>rp_Peer = p, nextState = \<lparr>Interested = False, Requests = []\<rparr>,
      requestablePiecesRemaining = 0\<rparr>"

definition countRequestable :: "nat \<Rightarrow> requestsPeer \<Rightarrow> requestsPeer" where
  "countRequestable i rp =
     (if canRequestPiece (rp_Peer rp) i
      then rp\<lparr>requestablePiecesRemaining := requestablePiecesRemaining rp + 1\<rparr> else rp)"

text \<open>The loop over \<^verbatim>\<open>t.Pieces\<close> of the torrent at position \<open>ti\<close>, from piece \<open>i\<close>.\<close>

fun collectPieces ::
  "nat \<Rightarrow> nat \<Rightarrow> Piece list \<Rightarrow> pieceRequestOrderPiece list \<times> requestsPeer list
     \<Rightarrow> pieceRequestOrderPiece list \<times> requestsPeer list" where
  "collectPieces ti i [] acc = acc"
| "collectPieces ti i (tp # tps) (pieces, peers) =
     collectPieces ti (Suc i) tps
       (pieces @ [\<lparr>piece_t = ti, piece_index = i, piece_Piece = tp\<rparr>],
        if Request tp \<and> NumPendingChunks tp \<noteq> 0 then map (countRequestable i) peers else peers)"

record orderState =
  pieces :: "pieceRequestOrderPiece list"
  storageLeftMap :: "nat \<rightharpoonup> 64 word"
  orderTorrents :: "orderTorrent list"

text \<open>
  The loop over the torrents. The capacity function behind a key returns a pointer to a
  counter, or nil: \<open>capacity k\<close> is \<open>None\<close> for nil, and otherwise the address of the
  counter with the value it holds when the run starts. Two keys may give the same
  address. \<open>storageLeftMap\<close> is the memory that holds the counters, by address, and the
  field \<open>storageLeft\<close> of a torrent is the pointer: the Go map of the same name, from keys
  to pointers, serves to call the function once for each key, and is the function
  \<open>capacity\<close> here.
\<close>

fun collectTorrents :: "(nat \<Rightarrow> (nat \<times> 64 word) option) \<Rightarrow> Torrent list \<Rightarrow> orderState \<Rightarrow> orderState" where
  "collectTorrents capacity [] s = s"
| "collectTorrents capacity (t # ts) s =
     (let left = (case Capacity t of None \<Rightarrow> None | Some key \<Rightarrow> capacity key);
          m = (case left of
                 None \<Rightarrow> storageLeftMap s
               | Some (a, v) \<Rightarrow>
                   (if storageLeftMap s a = None then (storageLeftMap s)(a \<mapsto> v)
                    else storageLeftMap s));
          (ps, peers) = collectPieces (length (orderTorrents s)) 0 (Pieces t)
                          (pieces s, map newRequestsPeer (Peers t)) in
      collectTorrents capacity ts
        \<lparr>pieces = ps, storageLeftMap = m,
         orderTorrents = orderTorrents s @
           [\<lparr>ot_Torrent = t, unverifiedBytes = 0, storageLeft = map_option fst left, ot_peers = peers\<rparr>]\<rparr>)"

text \<open>One round of the walk over the sorted pieces.\<close>

definition admitPiece ::
  "(nat \<times> nat \<Rightarrow> (ChunkSpec \<times> nat) list \<Rightarrow> (ChunkSpec \<times> nat) list) \<Rightarrow> orderState
     \<Rightarrow> pieceRequestOrderPiece \<Rightarrow> error + orderState" where
  "admitPiece mapOrder s piece =
     (let ot = orderTorrents s ! piece_t piece; p = piece_Piece piece in
      if \<not> Request p \<or> NumPendingChunks p = 0 then Inr s
      else if MaxUnverifiedBytes (ot_Torrent ot) \<noteq> 0
              \<and> MaxUnverifiedBytes (ot_Torrent ot) <s unverifiedBytes ot + Length p then Inr s
      else (case allocatePendingChunks (mapOrder (piece_t piece, piece_index piece)) piece (ot_peers ot) of
              Inl e \<Rightarrow> Inl e
            | Inr peers' \<Rightarrow>
                Inr (s\<lparr>orderTorrents := (orderTorrents s)
                        [piece_t piece := ot\<lparr>ot_peers := peers',
                                             unverifiedBytes := unverifiedBytes ot + Length p\<rparr>]\<rparr>)))"

definition walkPiece ::
  "(nat \<times> nat \<Rightarrow> (ChunkSpec \<times> nat) list \<Rightarrow> (ChunkSpec \<times> nat) list) \<Rightarrow> orderState
     \<Rightarrow> pieceRequestOrderPiece \<Rightarrow> error + orderState" where
  "walkPiece mapOrder s piece =
     (case storageLeft (orderTorrents s ! piece_t piece) of
        None \<Rightarrow> admitPiece mapOrder s piece
      | Some key \<Rightarrow>
          (case storageLeftMap s key of
             None \<Rightarrow> Inl PanicNilDereference
           | Some left \<Rightarrow>
               if left <s Length (piece_Piece piece) then Inr s
               else admitPiece mapOrder
                      (s\<lparr>storageLeftMap := (storageLeftMap s)(key \<mapsto> left - Length (piece_Piece piece))\<rparr>)
                      piece))"

fun walkPieces ::
  "(nat \<times> nat \<Rightarrow> (ChunkSpec \<times> nat) list \<Rightarrow> (ChunkSpec \<times> nat) list) \<Rightarrow> pieceRequestOrderPiece list
     \<Rightarrow> orderState \<Rightarrow> error + orderState" where
  "walkPieces mapOrder [] s = Inr s"
| "walkPieces mapOrder (piece # rest) s =
     (case walkPiece mapOrder s piece of
        Inl e \<Rightarrow> Inl e
      | Inr s' \<Rightarrow> walkPieces mapOrder rest s')"

text \<open>The result map, keyed by peer id; a later peer with the same id overwrites.\<close>

fun emitPeers :: "requestsPeer list \<Rightarrow> (nat \<rightharpoonup> PeerNextRequestState) \<Rightarrow> error + (nat \<rightharpoonup> PeerNextRequestState)" where
  "emitPeers [] ret = Inr ret"
| "emitPeers (rp # rps) ret =
     (if requestablePiecesRemaining rp \<noteq> 0
      then Inl (PanicRequestablePiecesRemaining (requestablePiecesRemaining rp))
      else emitPeers rps (ret(IdUintptr (rp_Peer rp) \<mapsto> nextState rp)))"

fun emitTorrents :: "orderTorrent list \<Rightarrow> (nat \<rightharpoonup> PeerNextRequestState) \<Rightarrow> error + (nat \<rightharpoonup> PeerNextRequestState)" where
  "emitTorrents [] ret = Inr ret"
| "emitTorrents (ots # rest) ret =
     (case emitPeers (ot_peers ots) ret of
        Inl e \<Rightarrow> Inl e
      | Inr ret' \<Rightarrow> emitTorrents rest ret')"

definition DoRequests ::
  "(nat \<Rightarrow> (nat \<times> 64 word) option) \<Rightarrow> (nat \<times> nat \<Rightarrow> (ChunkSpec \<times> nat) list \<Rightarrow> (ChunkSpec \<times> nat) list) \<Rightarrow> Torrent list
     \<Rightarrow> error + (nat \<rightharpoonup> PeerNextRequestState)" where
  "DoRequests capacity mapOrder ts =
     (let s0 = collectTorrents capacity ts
                 \<lparr>pieces = [], storageLeftMap = Map.empty, orderTorrents = []\<rparr> in
      case sort_pieces (orderTorrents s0) (pieces s0) of
        Inl e \<Rightarrow> Inl e
      | Inr ps \<Rightarrow>
          (case walkPieces mapOrder ps (s0\<lparr>pieces := ps\<rparr>) of
             Inl e \<Rightarrow> Inl e
           | Inr s1 \<Rightarrow> emitTorrents (orderTorrents s1) Map.empty))"

section \<open>The scenario of TestStealingFromSlowerPeer\<close>

text \<open>
  The input of the test in \<^verbatim>\<open>order_test.go\<close>: fields the test leaves out have Go's zero
  value. The peers do not choke and have no allowed-fast pieces, so each can request the
  piece it has and \<open>pieceAllowedFastOrDefault\<close> is false. \<^verbatim>\<open>math.MaxInt16\<close> is 32767.
\<close>

definition basePeer :: Peer where
  "basePeer =
     \<lparr>HasPiece = (\<lambda>i. True), MaxRequests = 32767, HasExistingRequest = None,
      Choking = False, DownloadRate = 2, Age = 0, IdUintptr = 0,
      canRequestPiece = (\<lambda>i. True), pieceAllowedFastOrDefault = (\<lambda>i. False)\<rparr>"

definition stealee :: Peer where
  "stealee = basePeer\<lparr>DownloadRate := 1, HasExistingRequest := Some (\<lambda>r. True), IdUintptr := 1\<rparr>"

definition firstStealer :: Peer where
  "firstStealer = basePeer\<lparr>IdUintptr := 2\<rparr>"

definition secondStealer :: Peer where
  "secondStealer = basePeer\<lparr>IdUintptr := 3\<rparr>"

definition chunkIterRange :: "nat \<Rightarrow> ChunkSpec list" where
  "chunkIterRange n = map (\<lambda>offset. (of_nat offset, 1)) [0..<n]"

definition stealingPiece :: Piece where
  "stealingPiece =
     \<lparr>Request = True, Priority = 0, Partial = False, Availability = 0, Length = 0,
      NumPendingChunks = 5, IterPendingChunks = Some (chunkIterRange 5)\<rparr>"

definition stealingTorrent :: Torrent where
  "stealingTorrent =
     \<lparr>Pieces = [stealingPiece], Capacity = None,
      Peers = [stealee, firstStealer, secondStealer], StableId = 0, MaxUnverifiedBytes = 0\<rparr>"


text \<open>
  The states of the test while \<^verbatim>\<open>allocatePendingChunks\<close> runs differ in the requests and
  the interest of the three peers, the counters, the order of the slice and the pending
  count; \<open>stealState\<close> builds such a state. \<open>stealingPeers\<close> are the peers as the
  walk reaches the piece, \<open>stealingPreallocated\<close> and \<open>stealingRequests\<close> the map and
  the stealee's requests after phase A.
\<close>

definition stealingPeers :: "requestsPeer list" where
  "stealingPeers =
     [\<lparr>rp_Peer = stealee, nextState = \<lparr>Interested = False, Requests = []\<rparr>, requestablePiecesRemaining = 1\<rparr>,
      \<lparr>rp_Peer = firstStealer, nextState = \<lparr>Interested = False, Requests = []\<rparr>, requestablePiecesRemaining = 1\<rparr>,
      \<lparr>rp_Peer = secondStealer, nextState = \<lparr>Interested = False, Requests = []\<rparr>, requestablePiecesRemaining = 1\<rparr>]"

definition stealState ::
  "Request list \<Rightarrow> Request list \<Rightarrow> Request list \<Rightarrow> bool \<Rightarrow> bool \<Rightarrow> bool \<Rightarrow> int list \<Rightarrow> nat list
     \<Rightarrow> (ChunkSpec \<times> nat) list \<Rightarrow> int \<Rightarrow> allocState" where
  "stealState R0 R1 R2 i0 i1 i2 rip ord pre n =
     \<lparr>peersHeap =
        [\<lparr>rp_Peer = stealee, nextState = \<lparr>Interested = i0, Requests = R0\<rparr>, requestablePiecesRemaining = 1\<rparr>,
         \<lparr>rp_Peer = firstStealer, nextState = \<lparr>Interested = i1, Requests = R1\<rparr>, requestablePiecesRemaining = 1\<rparr>,
         \<lparr>rp_Peer = secondStealer, nextState = \<lparr>Interested = i2, Requests = R2\<rparr>, requestablePiecesRemaining = 1\<rparr>],
      requestsInPiece = rip, peersForPiece = ord, preallocated = pre, pendingChunksRemaining = n\<rparr>"

definition stealingPreallocated :: "(ChunkSpec \<times> nat) list" where
  "stealingPreallocated = [((0, 1), 0), ((1, 1), 0), ((2, 1), 0), ((3, 1), 0), ((4, 1), 0)]"

definition stealingRequests :: "Request list" where
  "stealingRequests = [(0, (0, 1)), (0, (1, 1)), (0, (2, 1)), (0, (3, 1)), (0, (4, 1))]"

text \<open>
  An iteration order visits every entry of the map once: for every piece it returns a
  permutation of the entries.
\<close>

definition iterationOrder ::
  "(nat \<times> nat \<Rightarrow> (ChunkSpec \<times> nat) list \<Rightarrow> (ChunkSpec \<times> nat) list) \<Rightarrow> bool" where
  "iterationOrder mapOrder \<longleftrightarrow> (\<forall>key xs. mset (mapOrder key xs) = mset xs)"

section \<open>The cap on a peer's requests\<close>

text \<open>
  \<open>withinCap rp\<close>: the peer holds no more requests than its \<open>MaxRequests\<close> allows
  (none, if \<open>MaxRequests\<close> is negative). \<open>snapshotOf P s\<close>: the heap of
  \<^verbatim>\<open>allocatePendingChunks\<close> holds the peers \<open>P\<close>, each within its cap.
\<close>

definition withinCap :: "requestsPeer \<Rightarrow> bool" where
  "withinCap rp \<longleftrightarrow> int (length (Requests (nextState rp))) \<le> max 0 (MaxRequests (rp_Peer rp))"

definition snapshotOf :: "Peer list \<Rightarrow> allocState \<Rightarrow> bool" where
  "snapshotOf P s \<longleftrightarrow> map rp_Peer (peersHeap s) = P \<and> list_all withinCap (peersHeap s)"

definition torrentsWithinCap :: "Torrent list \<Rightarrow> orderState \<Rightarrow> bool" where
  "torrentsWithinCap ts s \<longleftrightarrow>
     map ot_Torrent (orderTorrents s) = ts \<and>
     list_all (\<lambda>ot. map rp_Peer (ot_peers ot) = Peers (ot_Torrent ot) \<and> list_all withinCap (ot_peers ot))
       (orderTorrents s)"

text \<open>
  The input that exceeds 32: one torrent with one piece of 33 pending chunks and one
  peer that has the piece and takes up to 40 requests.
\<close>

definition eagerPeer :: Peer where
  "eagerPeer = basePeer\<lparr>MaxRequests := 40, IdUintptr := 1\<rparr>"

definition eagerTorrent :: Torrent where
  "eagerTorrent =
     \<lparr>Pieces = [\<lparr>Request = True, Priority = 0, Partial = False, Availability = 0, Length = 0,
                 NumPendingChunks = 33, IterPendingChunks = Some (chunkIterRange 33)\<rparr>],
      Capacity = None, Peers = [eagerPeer], StableId = 0, MaxUnverifiedBytes = 0\<rparr>"

definition requestCount :: "error + (nat \<rightharpoonup> PeerNextRequestState) \<Rightarrow> nat \<Rightarrow> nat option" where
  "requestCount r k =
     (case r of Inl e \<Rightarrow> None | Inr m \<Rightarrow> map_option (\<lambda>ns. length (Requests ns)) (m k))"

section \<open>The sort cascade, as the spec words it\<close>

text \<open>
  The spec's key of a piece, \<^verbatim>\<open>(-priority, -partial, +availability, +pieceIndex,
  +torrentStableId)\<close>, compared lexicographically, first component first. A partial piece
  comes before one that is not, so the second component is the negation of \<open>Partial\<close>
  (\<open>False\<close> is below \<open>True\<close>).
\<close>

definition cascadeKey :: "orderTorrent list \<Rightarrow> pieceRequestOrderPiece \<Rightarrow> int \<times> bool \<times> int \<times> nat \<times> nat" where
  "cascadeKey ots p =
     (- Priority (piece_Piece p), \<not> Partial (piece_Piece p), Availability (piece_Piece p),
      piece_index p, StableId (ot_Torrent (ots ! piece_t p)))"

definition cascadeBefore :: "orderTorrent list \<Rightarrow> pieceRequestOrderPiece \<Rightarrow> pieceRequestOrderPiece \<Rightarrow> bool" where
  "cascadeBefore ots a b \<longleftrightarrow> cascadeKey ots a < cascadeKey ots b"

text \<open>Two torrents with two pieces each, for an instance of the sort.\<close>

definition cascadeTorrents :: "orderTorrent list" where
  "cascadeTorrents =
     [\<lparr>ot_Torrent = \<lparr>Pieces = [], Capacity = None, Peers = [], StableId = 7, MaxUnverifiedBytes = 0\<rparr>,
       unverifiedBytes = 0, storageLeft = None, ot_peers = []\<rparr>,
      \<lparr>ot_Torrent = \<lparr>Pieces = [], Capacity = None, Peers = [], StableId = 3, MaxUnverifiedBytes = 0\<rparr>,
       unverifiedBytes = 0, storageLeft = None, ot_peers = []\<rparr>]"

definition cascadePiece :: "nat \<Rightarrow> nat \<Rightarrow> int \<Rightarrow> bool \<Rightarrow> int \<Rightarrow> pieceRequestOrderPiece" where
  "cascadePiece ti i prio part avail =
     \<lparr>piece_t = ti, piece_index = i,
      piece_Piece = \<lparr>Request = True, Priority = prio, Partial = part, Availability = avail,
                     Length = 16384, NumPendingChunks = 1, IterPendingChunks = None\<rparr>\<rparr>"

definition cascadePieces :: "pieceRequestOrderPiece list" where
  "cascadePieces =
     [cascadePiece 0 0 1 False 2, cascadePiece 0 1 1 True 5,
      cascadePiece 1 0 1 False 2, cascadePiece 1 1 4 False 9]"

section \<open>The gates of the walk, as the spec words them\<close>

text \<open>
  The spec's walk: skip a piece if the torrent's remaining storage capacity is below
  the piece length; skip it if it is not \<^verbatim>\<open>request\<close> or has no pending chunks; skip it if
  admitting it would push the torrent's unverified bytes over \<^verbatim>\<open>maxUnverifiedBytes\<close>
  (unless that is 0); else allocate its chunks and charge its length.
\<close>

definition capacityAdmits :: "orderState \<Rightarrow> pieceRequestOrderPiece \<Rightarrow> bool" where
  "capacityAdmits s p \<longleftrightarrow>
     (case storageLeft (orderTorrents s ! piece_t p) of
        None \<Rightarrow> True
      | Some key \<Rightarrow>
          (case storageLeftMap s key of
             None \<Rightarrow> False
           | Some left \<Rightarrow> \<not> left <s Length (piece_Piece p)))"

definition requestable :: "pieceRequestOrderPiece \<Rightarrow> bool" where
  "requestable p \<longleftrightarrow> Request (piece_Piece p) \<and> NumPendingChunks (piece_Piece p) \<noteq> 0"

definition overCeiling :: "orderState \<Rightarrow> pieceRequestOrderPiece \<Rightarrow> bool" where
  "overCeiling s p \<longleftrightarrow>
     MaxUnverifiedBytes (ot_Torrent (orderTorrents s ! piece_t p))
       <s unverifiedBytes (orderTorrents s ! piece_t p) + Length (piece_Piece p)"

definition admitted :: "orderState \<Rightarrow> pieceRequestOrderPiece \<Rightarrow> bool" where
  "admitted s p \<longleftrightarrow>
     capacityAdmits s p \<and> requestable p \<and>
     (MaxUnverifiedBytes (ot_Torrent (orderTorrents s ! piece_t p)) = 0 \<or> \<not> overCeiling s p)"

text \<open>
  The lengths of the pieces of the torrent at \<open>ti\<close> that a walk over \<open>ps\<close> admits,
  summed as the 64-bit counter sums them.
\<close>

fun admittedLengths ::
  "(nat \<times> nat \<Rightarrow> (ChunkSpec \<times> nat) list \<Rightarrow> (ChunkSpec \<times> nat) list) \<Rightarrow> nat
     \<Rightarrow> pieceRequestOrderPiece list \<Rightarrow> orderState \<Rightarrow> 64 word" where
  "admittedLengths mapOrder ti [] s = 0"
| "admittedLengths mapOrder ti (p # ps) s =
     (case walkPiece mapOrder s p of
        Inl e \<Rightarrow> 0
      | Inr s' \<Rightarrow>
          (if admitted s p \<and> piece_t p = ti then Length (piece_Piece p) else 0)
            + admittedLengths mapOrder ti ps s')"

text \<open>
  Scenario 6 of the spec: one torrent whose ceiling is two piece lengths, with three
  pieces of 16384 bytes, and one willing peer.
\<close>

definition ceilingPiece :: Piece where
  "ceilingPiece =
     \<lparr>Request = True, Priority = 1, Partial = False, Availability = 1, Length = 16384,
      NumPendingChunks = 1, IterPendingChunks = Some [(0, 16384)]\<rparr>"

definition ceilingTorrent :: Torrent where
  "ceilingTorrent =
     \<lparr>Pieces = [ceilingPiece, ceilingPiece, ceilingPiece], Capacity = None,
      Peers = [firstStealer], StableId = 0, MaxUnverifiedBytes = 32768\<rparr>"

definition ceilingStart :: orderState where
  "ceilingStart =
     collectTorrents (\<lambda>key. None) [ceilingTorrent]
       \<lparr>pieces = [], storageLeftMap = Map.empty, orderTorrents = []\<rparr>"

text \<open>
  Scenario 5 of the spec: two torrents that share one capacity of one piece length,
  each with one piece and one willing peer.
\<close>

definition cappedTorrent :: "nat \<Rightarrow> Peer \<Rightarrow> Torrent" where
  "cappedTorrent sid p =
     \<lparr>Pieces = [ceilingPiece], Capacity = Some 0, Peers = [p], StableId = sid,
      MaxUnverifiedBytes = 0\<rparr>"

definition cappedStart :: orderState where
  "cappedStart =
     collectTorrents (\<lambda>key. Some (key, 16384)) [cappedTorrent 1 firstStealer, cappedTorrent 2 secondStealer]
       \<lparr>pieces = [], storageLeftMap = Map.empty, orderTorrents = []\<rparr>"

text \<open>The pieces of the two scenarios, in the order of the walk.\<close>

definition ceilingWalk :: "pieceRequestOrderPiece list" where
  "ceilingWalk =
     [\<lparr>piece_t = 0, piece_index = 0, piece_Piece = ceilingPiece\<rparr>,
      \<lparr>piece_t = 0, piece_index = 1, piece_Piece = ceilingPiece\<rparr>,
      \<lparr>piece_t = 0, piece_index = 2, piece_Piece = ceilingPiece\<rparr>]"

definition cappedFirst :: pieceRequestOrderPiece where
  "cappedFirst = \<lparr>piece_t = 0, piece_index = 0, piece_Piece = ceilingPiece\<rparr>"

definition cappedSecond :: pieceRequestOrderPiece where
  "cappedSecond = \<lparr>piece_t = 1, piece_index = 0, piece_Piece = ceilingPiece\<rparr>"

definition unverifiedAfter :: "error + orderState \<Rightarrow> nat \<Rightarrow> 64 word option" where
  "unverifiedAfter r ti =
     (case r of Inl e \<Rightarrow> None | Inr s \<Rightarrow> Some (unverifiedBytes (orderTorrents s ! ti)))"

definition storageAfter :: "error + orderState \<Rightarrow> nat \<Rightarrow> 64 word option" where
  "storageAfter r key = (case r of Inl e \<Rightarrow> None | Inr s \<Rightarrow> storageLeftMap s key)"

definition panicOf :: "error + 'a \<Rightarrow> error option" where
  "panicOf r = (case r of Inl e \<Rightarrow> Some e | Inr x \<Rightarrow> None)"

text \<open>
  Two torrents with different keys whose capacity functions return the same counter, and
  two whose functions return nil.
\<close>

definition keyedTorrent :: "nat \<Rightarrow> Torrent" where
  "keyedTorrent key =
     \<lparr>Pieces = [ceilingPiece], Capacity = Some key, Peers = [], StableId = key, MaxUnverifiedBytes = 0\<rparr>"

definition storagePointers :: "orderState \<Rightarrow> nat option list" where
  "storagePointers s = map storageLeft (orderTorrents s)"


section \<open>Bencode round trip\<close>

lemma isDigit_not_tag:
  "isDigit c \<Longrightarrow> c \<noteq> 105 \<and> c \<noteq> 108 \<and> c \<noteq> 100 \<and> c \<noteq> 101 \<and> c \<noteq> 58 \<and> c \<noteq> 45"
  by (auto simp: isDigit_def)

lemma unat_digitByte: "d < 10 \<Longrightarrow> unat (digitByte d) = 48 + d"
  unfolding digitByte_def by (simp only: unat_of_nat) simp

lemma isDigit_of_nat: "d < 10 \<Longrightarrow> isDigit (digitByte d)"
  by (simp add: isDigit_def word_le_nat_alt unat_digitByte)

lemma unat_digit: "d < 10 \<Longrightarrow> unat (digitByte d) - 48 = d"
  by (simp add: unat_digitByte)

lemma digits_isDigit: "list_all isDigit (digits n)"
proof (induction n rule: digits.induct)
  case (1 n)
  show ?case
  proof (cases "n < 10")
    case True
    then show ?thesis by (subst digits.simps) (simp add: isDigit_of_nat)
  next
    case False
    then show ?thesis
      using 1 by (subst digits.simps) (simp add: isDigit_of_nat)
  qed
qed

lemma digits_nonempty: "digits n \<noteq> []"
  by (subst digits.simps) simp

lemma parseNat_snoc: "parseNat (ds @ [d]) = 10 * parseNat ds + (unat d - 48)"
  by (simp add: parseNat_def)

lemma parseNat_digits: "parseNat (digits n) = n"
proof (induction n rule: digits.induct)
  case (1 n)
  show ?case
  proof (cases "n < 10")
    case True
    then show ?thesis
      by (subst digits.simps) (simp add: parseNat_def unat_digit)
  next
    case False
    then have "parseNat (digits (n div 10)) = n div 10"
      using 1 by simp
    then show ?thesis
      using False by (subst digits.simps) (simp add: parseNat_snoc unat_digit)
  qed
qed

lemma takeWhile_stop:
  "list_all P xs \<Longrightarrow> \<not> P y \<Longrightarrow> takeWhile P (xs @ y # ys) = xs"
  by (induction xs) auto

lemma dropWhile_stop:
  "list_all P xs \<Longrightarrow> \<not> P y \<Longrightarrow> dropWhile P (xs @ y # ys) = y # ys"
  by (induction xs) auto

lemma digits_no_e: "list_all (\<lambda>b. b \<noteq> 101) (digits n)"
  by (rule list.pred_mono_strong[OF digits_isDigit]) (simp add: isDigit_not_tag)

lemma encodeInt_no_e: "list_all (\<lambda>b. b \<noteq> 101) (encodeInt i)"
  by (simp add: encodeInt_def digits_no_e)

lemma parseInt_encodeInt: "parseInt (encodeInt i) = Some i"
proof (cases "i < 0")
  case True
  then show ?thesis
    by (simp add: parseInt_def encodeInt_def digits_nonempty digits_isDigit parseNat_digits)
next
  case False
  obtain c cs where d: "digits (nat i) = c # cs"
    using digits_nonempty[of "nat i"] by (cases "digits (nat i)") auto
  have "isDigit c"
    using digits_isDigit[of "nat i"] d by simp
  then have "c \<noteq> 45"
    by (simp add: isDigit_not_tag)
  then show ?thesis
    using False d digits_isDigit[of "nat i"] parseNat_digits[of "nat i"]
    by (simp add: parseInt_def encodeInt_def)
qed

lemma decode_int:
  "decode (Suc f) (encode (BInt i) @ rest) = Some (BInt i, rest)"
  using encodeInt_no_e[of i]
  by (simp add: takeWhile_stop dropWhile_stop parseInt_encodeInt)

lemma decode_string:
  "decode (Suc f) (encode (BString s) @ rest) = Some (BString s, rest)"
proof -
  obtain c cs where d: "digits (length s) = c # cs"
    using digits_nonempty[of "length s"] by (cases "digits (length s)") auto
  have c: "isDigit c"
    using digits_isDigit[of "length s"] d by simp
  have all: "list_all isDigit (c # cs)"
    using digits_isDigit[of "length s"] d by simp
  have nd: "\<not> isDigit 58"
    by (simp add: isDigit_def)
  have tw: "takeWhile isDigit (c # cs @ 58 # s @ rest) = c # cs"
    using takeWhile_stop[OF all nd, of "s @ rest"] by simp
  have dw: "dropWhile isDigit (c # cs @ 58 # s @ rest) = 58 # s @ rest"
    using dropWhile_stop[OF all nd, of "s @ rest"] by simp
  have pn: "parseNat (c # cs) = length s"
    using parseNat_digits[of "length s"] d by simp
  have "decode (Suc f) (c # cs @ 58 # s @ rest) = Some (BString s, rest)"
    using isDigit_not_tag[OF c] c
    by (simp only: decode.simps tw dw pn) simp
  then show ?thesis
    by (simp add: encodeString_def d)
qed

lemma encode_head: "\<exists>c cs. encode v = c # cs \<and> c \<noteq> 101"
proof (cases v)
  case (BString s)
  obtain c cs where d: "digits (length s) = c # cs"
    using digits_nonempty[of "length s"] by (cases "digits (length s)") auto
  have "isDigit c"
    using digits_isDigit[of "length s"] d by simp
  then show ?thesis
    using BString d isDigit_not_tag[of c] by (simp add: encodeString_def)
qed simp_all

lemma encode_flatten:
  "concat (map encode (flatten kvs)) = concat (map (\<lambda>(k, v). encodeString k @ encode v) kvs)"
  by (induction kvs) (auto simp: flatten_def)

lemma pairUp_flatten: "pairUp (flatten kvs) = Some kvs"
  by (induction kvs) (auto simp: flatten_def)

lemma set_flatten:
  "x \<in> set (flatten kvs) \<Longrightarrow> (\<exists>k. x = BString k) \<or> (\<exists>k. (k, x) \<in> set kvs)"
  by (induction kvs) (auto simp: flatten_def)

lemma encode_nonempty: "1 \<le> length (encode v)"
  using encode_head[of v] by auto

lemma decodeList_step:
  "decodeList (Suc f) (encode v @ R) =
     (case decode f (encode v @ R) of None \<Rightarrow> None
      | Some (v', rest) \<Rightarrow> map_option (\<lambda>(vs, rest'). (v' # vs, rest')) (decodeList f rest))"
proof -
  obtain c cs where e: "encode v = c # cs" "c \<noteq> 101"
    using encode_head by blast
  show ?thesis
    by (simp add: e)
qed

lemma decodeList_elems:
  assumes elems: "\<And>v f rest. v \<in> set vs \<Longrightarrow> 2 * length (encode v) \<le> f + 1
                    \<Longrightarrow> decode f (encode v @ rest) = Some (v, rest)"
  shows "2 * length (concat (map encode vs)) + 1 \<le> f
         \<Longrightarrow> decodeList f (concat (map encode vs) @ 101 # rest) = Some (vs, rest)"
  using elems
proof (induction vs arbitrary: f)
  case Nil
  then obtain f' where "f = Suc f'"
    by (cases f) auto
  then show ?case
    by simp
next
  case (Cons v vs)
  obtain f' where f: "f = Suc f'"
    using Cons.prems(1) by (cases f) auto
  have len: "1 \<le> length (encode v)"
    by (rule encode_nonempty)
  have fv: "2 * length (encode v) \<le> f' + 1"
    using Cons.prems(1) f by simp
  have fr: "2 * length (concat (map encode vs)) + 1 \<le> f'"
    using Cons.prems(1) f len by simp
  have hd: "decode f' (encode v @ concat (map encode vs) @ 101 # rest)
            = Some (v, concat (map encode vs) @ 101 # rest)"
    using Cons.prems(2)[of v f'] fv by simp
  have tl: "decodeList f' (concat (map encode vs) @ 101 # rest) = Some (vs, rest)"
  proof (rule Cons.IH)
    show "2 * length (concat (map encode vs)) + 1 \<le> f'"
      by (rule fr)
  next
    fix w g r
    assume "w \<in> set vs" "2 * length (encode w) \<le> g + 1"
    then show "decode g (encode w @ r) = Some (w, r)"
      using Cons.prems(2)[of w g r] by simp
  qed
  have "decodeList (Suc f') (encode v @ concat (map encode vs) @ 101 # rest) = Some (v # vs, rest)"
    by (simp add: decodeList_step hd tl)
  then show ?case
    using f by simp
qed

lemma decode_encode:
  "2 * length (encode v) \<le> f + 1 \<Longrightarrow> decode f (encode v @ rest) = Some (v, rest)"
proof (induction v arbitrary: f rest)
  case (BInt i)
  then obtain f' where "f = Suc f'"
    by (cases f) auto
  then show ?case
    using decode_int by simp
next
  case (BString s)
  have "1 \<le> length (encode (BString s))"
    by (rule encode_nonempty)
  then obtain f' where "f = Suc f'"
    using BString by (cases f) auto
  then show ?case
    using decode_string by simp
next
  case (BList vs)
  obtain f' where f: "f = Suc f'"
    using BList.prems by (cases f) auto
  have fr: "2 * length (concat (map encode vs)) + 1 \<le> f'"
    using BList.prems f by simp
  have "decodeList f' (concat (map encode vs) @ 101 # rest) = Some (vs, rest)"
  proof (rule decodeList_elems)
    show "2 * length (concat (map encode vs)) + 1 \<le> f'"
      by (rule fr)
  next
    fix v g r
    assume "v \<in> set vs" "2 * length (encode v) \<le> g + 1"
    then show "decode g (encode v @ r) = Some (v, r)"
      by (rule BList.IH)
  qed
  then show ?case
    using f by simp
next
  case (BDict kvs)
  obtain f' where f: "f = Suc f'"
    using BDict.prems by (cases f) auto
  have fr: "2 * length (concat (map encode (flatten kvs))) + 1 \<le> f'"
    using BDict.prems f by (simp add: encode_flatten)
  have elems: "decode g (encode x @ r) = Some (x, r)"
    if mem: "x \<in> set (flatten kvs)" and bound: "2 * length (encode x) \<le> g + 1" for x g r
  proof -
    consider k where "x = BString k" | k where "(k, x) \<in> set kvs"
      using set_flatten[OF mem] by blast
    then show ?thesis
    proof cases
      case 1
      have "1 \<le> length (encode x)"
        by (rule encode_nonempty)
      then obtain g' where "g = Suc g'"
        using bound by (cases g) auto
      then show ?thesis
        using 1 decode_string by simp
    next
      case 2
      then show ?thesis
        using BDict.IH[of "(k, x)" x g r] bound by simp
    qed
  qed
  have "decodeList f' (concat (map encode (flatten kvs)) @ 101 # rest) = Some (flatten kvs, rest)"
    using decodeList_elems[OF elems fr] by simp
  then show ?case
    using f by (simp add: encode_flatten pairUp_flatten)
qed

lemma Unmarshal_encode: "Unmarshal (encode v) = Inr v"
proof -
  have "decode (2 * length (encode v)) (encode v @ []) = Some (v, [])"
    by (rule decode_encode) simp
  then show ?thesis
    by (simp add: Unmarshal_def decoder_decode_def)
qed

lemma digits_small: "n < 10 \<Longrightarrow> digits n = [digitByte n]"
  by (subst digits.simps) simp

lemma digits_large: "\<not> n < 10 \<Longrightarrow> digits n = digits (n div 10) @ [digitByte (n mod 10)]"
  by (subst digits.simps) simp

lemma sample_encoding:
  "encode sampleInfo = asciiBytes ''d6:lengthi16384e4:name1:a5:tiersllei-7eee''"
  by (simp add: sampleInfo_def asciiBytes_def encodeString_def encodeInt_def
      digits_small digits_large digitByte_def)

lemma trailing_bytes_rejected:
  "Unmarshal (asciiBytes ''i1ee'') = Inl (SyntaxError 3 ''trailing bytes'')"
proof -
  have bs: "asciiBytes ''i1ee'' = [105, 49, 101, 101]"
    by (simp add: asciiBytes_def)
  have f: "2 * length [105 :: byte, 49, 101, 101] = Suc 7"
    by simp
  have d: "decode (Suc g) [105, 49, 101, 101] = Some (BInt 1, [101])" for g
    by (simp add: parseInt_def isDigit_def parseNat_def)
  show ?thesis
    unfolding Unmarshal_def decoder_decode_def bs f d[of 7] by simp
qed

text \<open>
  Claim C9. For every value \<open>v\<close> of the tree, \<^verbatim>\<open>Marshal\<close> succeeds, and \<^verbatim>\<open>Unmarshal\<close> of the
  bytes it returns succeeds and yields \<open>v\<close> again.
\<close>

theorem Unmarshal_Marshal: "\<exists>bs. Marshal v = Inr bs \<and> Unmarshal bs = Inr v"
proof -
  have "decode (2 * length (encode v)) (encode v @ []) = Some (v, [])"
    by (rule decode_encode) simp
  then show ?thesis
    by (simp add: Marshal_def Unmarshal_def encoder_encode_def decoder_decode_def)
qed

section \<open>The reduced dial timeout\<close>

lemma quot_nonneg: "0 \<le> a \<Longrightarrow> 0 < b \<Longrightarrow> quot a b = a div b"
  by (simp add: quot_def sgn_if)

lemma sint64_range: "- (2 ^ 63) \<le> sint (w :: 64 word) \<and> sint w < 2 ^ 63"
  using sint_ge[of w] sint_lt[of w] by simp

lemma sint64_of_int: "- (2 ^ 63) \<le> k \<Longrightarrow> k < 2 ^ 63 \<Longrightarrow> sint (word_of_int k :: 64 word) = k"
  by (simp add: sint_sbintrunc' signed_take_bit_int_eq_self)

lemma sint64_add:
  "- (2 ^ 63) \<le> sint a + sint b \<Longrightarrow> sint a + sint b < 2 ^ 63 \<Longrightarrow> sint (a + b :: 64 word) = sint a + sint b"
  by (simp add: sint_word_ariths signed_take_bit_int_eq_self)

lemma quot_bounds: "0 < d \<Longrightarrow> \<bar>quot a d\<bar> \<le> \<bar>a\<bar>"
proof -
  assume d: "0 < d"
  have "\<bar>a\<bar> div d \<le> \<bar>a\<bar> div 1"
    using d by (intro zdiv_mono2) simp_all
  then have le: "\<bar>a\<bar> div d \<le> \<bar>a\<bar>"
    by simp
  have nn: "0 \<le> \<bar>a\<bar> div d"
    using d by (simp add: pos_imp_zdiv_nonneg_iff)
  have "\<bar>quot a d\<bar> = \<bar>sgn a\<bar> * (\<bar>a\<bar> div d)"
    using d nn by (simp add: quot_def abs_mult)
  also have "\<dots> \<le> \<bar>a\<bar> div d"
    using nn by (simp add: sgn_if)
  finally show ?thesis
    using le by linarith
qed

lemma sdiv64_pos:
  assumes "0 < sint d"
  shows "sint (sdiv64 a d) = quot (sint a) (sint d)"
proof -
  have "\<bar>quot (sint a) (sint d)\<bar> \<le> \<bar>sint a\<bar>"
    using assms by (rule quot_bounds)
  moreover have "quot (sint a) (sint d) \<le> 0" if "sint a < 0"
  proof -
    have "0 \<le> (- sint a) div sint d"
      using that assms by (simp add: pos_imp_zdiv_nonneg_iff)
    then show ?thesis
      using that assms by (simp add: quot_def sgn_if)
  qed
  moreover have "0 \<le> quot (sint a) (sint d)" if "0 \<le> sint a"
    using that assms by (simp add: quot_def sgn_if pos_imp_zdiv_nonneg_iff)
  ultimately have "- (2 ^ 63) \<le> quot (sint a) (sint d) \<and> quot (sint a) (sint d) < 2 ^ 63"
    using sint64_range[of a] by (cases "0 \<le> sint a") linarith+
  then show ?thesis
    by (simp add: sdiv64_def sint64_of_int)
qed

text \<open>
  Claim C6 as stated fails. With a limit of 40 and one pending peer the divisor is
  41 / 40 = 1 in Go, so the nominal 30 s stay 30 s, where the ceiling 2 of the spec's
  formula gives 15 s. With a limit of 0 the division panics.
\<close>

theorem dial_timeout_ceiling_counterexample:
  "reducedDialTimeout 5000000000 30000000000 40 1 = Inr 30000000000 \<and>
   specDialTimeout 5000000000 30000000000 40 1 = 15000000000 \<and>
   reducedDialTimeout 5000000000 30000000000 0 1 = Inl PanicDivideByZero"
  by (simp add: reducedDialTimeout_def specDialTimeout_def ceilDiv_def quot_def sdiv64_def word_sless_alt)

text \<open>
  Where the sum of the pending peers and the limit exceeds the largest \<^verbatim>\<open>int\<close>, it wraps:
  with the largest \<^verbatim>\<open>int\<close> as limit and one pending peer the sum is the most negative
  value, the divisor is \<open>-1\<close>, and the negative quotient is replaced by
  \<^verbatim>\<open>minDialTimeout\<close>.
\<close>

lemma reducedDialTimeout_wraps:
  "reducedDialTimeout 5000000000 30000000000 0x7FFFFFFFFFFFFFFF 1 = Inr 5000000000"
  by (simp add: reducedDialTimeout_def quot_def sdiv64_def word_sless_alt)

text \<open>
  Claim C6, as amended. For every nominal timeout, positive half-open limit and
  non-negative count of pending peers whose sum does not exceed the largest \<^verbatim>\<open>int\<close>, the
  reduced dial timeout is the nominal timeout divided (truncating) by the floor of
  (pending + halfOpenLimit) / halfOpenLimit, that is by 1 + pending div halfOpenLimit,
  except that a result below \<^verbatim>\<open>minDialTimeout\<close> is replaced by \<^verbatim>\<open>minDialTimeout\<close>.
\<close>

theorem reducedDialTimeout_floor:
  assumes "0 <s halfOpenLimit" and "0 \<le>s pendingPeers"
    and "sint pendingPeers + sint halfOpenLimit < 2 ^ 63"
  shows "\<exists>ret. reducedDialTimeout minDialTimeout nominal halfOpenLimit pendingPeers = Inr ret \<and>
           sint ret = max (sint minDialTimeout)
                        (quot (sint nominal) ((sint pendingPeers + sint halfOpenLimit) div sint halfOpenLimit)) \<and>
           (sint pendingPeers + sint halfOpenLimit) div sint halfOpenLimit
             = 1 + sint pendingPeers div sint halfOpenLimit"
proof -
  let ?h = "sint halfOpenLimit" and ?p = "sint pendingPeers"
  have h: "0 < ?h" and p: "0 \<le> ?p"
    using assms by (simp_all add: word_sless_alt word_sle_eq)
  have hn: "halfOpenLimit \<noteq> 0"
    using h by auto
  have s: "sint (pendingPeers + halfOpenLimit) = ?p + ?h"
    using assms(3) h p by (intro sint64_add) simp_all
  have d: "(?p + ?h) div ?h = 1 + ?p div ?h"
    using h by simp
  have "0 \<le> ?p div ?h"
    using h p by (simp add: pos_imp_zdiv_nonneg_iff)
  then have pos: "0 < (?p + ?h) div ?h"
    using d by linarith
  have q: "sint (sdiv64 (pendingPeers + halfOpenLimit) halfOpenLimit) = (?p + ?h) div ?h"
    using sdiv64_pos[OF h, of "pendingPeers + halfOpenLimit"] s h p by (simp add: quot_nonneg)
  then have qn: "sdiv64 (pendingPeers + halfOpenLimit) halfOpenLimit \<noteq> 0"
    using pos by auto
  have r: "sint (sdiv64 nominal (sdiv64 (pendingPeers + halfOpenLimit) halfOpenLimit))
      = quot (sint nominal) ((?p + ?h) div ?h)"
    using sdiv64_pos[of "sdiv64 (pendingPeers + halfOpenLimit) halfOpenLimit" nominal] q pos by simp
  show ?thesis
    using hn qn r d by (auto simp: reducedDialTimeout_def Let_def word_sless_alt max_def)
qed

theorem reducedDialTimeout_floor_witness:
  "(0 :: 64 word) <s 40 \<and> (0 :: 64 word) \<le>s 80 \<and> sint (80 :: 64 word) + sint (40 :: 64 word) < 2 ^ 63 \<and>
   reducedDialTimeout 5000000000 30000000000 40 80 = Inr 10000000000 \<and>
   (sint (80 :: 64 word) + sint (40 :: 64 word)) div sint (40 :: 64 word) = 3"
  using reducedDialTimeout_floor[of 40 80 5000000000 30000000000]
  by (simp add: quot_def word_sless_alt word_sle_eq reducedDialTimeout_def sdiv64_def)

section \<open>Acceptance of acquired metadata\<close>

lemma invalidateAt_result:
  "invalidateAt cl p = Inr cl' \<Longrightarrow>
     torrents cl' = torrents cl \<and>
     (\<exists>t'. objs cl' p = Some t' \<and> MetaData t' = [] \<and> torrent.Info t' = None)"
  by (auto simp: invalidateAt_def invalidateMetadata_def split: option.splits)

lemma dropTorrent_registry:
  "dropTorrent env cl ih = Inr (e, cl') \<Longrightarrow>
     torrents cl' = (torrents cl)(ih := None) \<and>
     (\<forall>p. objs cl p \<noteq> None \<longrightarrow> objs cl' p \<noteq> None)"
  by (auto simp: dropTorrent_def split: option.splits prod.splits)

lemma startTorrent_result:
  "startTorrent cl t = Inr t' \<Longrightarrow>
     torrent.Info t' = torrent.Info t \<and> torrent.Info t' \<noteq> None \<and>
     torrent_data t' = torrent_data t \<and> torrent_data t' \<noteq> None \<and> MetaData t' = MetaData t"
  by (auto simp: startTorrent_def split: if_splits)

lemma setMetaData_accepts:
  assumes "objs cl p = Some t"
  shows "setMetaData env cl p md bytes = Inr (None, cl') \<longleftrightarrow>
     (\<exists>t1 t2 t'. torrent_setMetadata env t md bytes = (None, t1) \<and>
        \<not> contains (toLower (Name md)) ''porn'' \<and> \<not> gotMetainfo t1 \<and>
        torrent_setStorage env (t1\<lparr>gotMetainfo := True\<rparr>) (torrentDataOpener env md) = (None, t2) \<and>
        startTorrent cl t2 = Inr t' \<and>
        cl' = cl\<lparr>objs := (objs cl)(p \<mapsto> t')\<rparr>)"
  using assms
  by (auto simp: setMetaData_def setStorage_def startTorrent_def Let_def
      split: prod.splits option.splits sum.splits if_splits)

lemma setMetaData_refuses:
  assumes "objs cl p = Some t" and "setMetaData env cl p md bytes = Inr (Some e, cl')"
  shows "objs cl' p \<noteq> None \<and>
         (if \<exists>t1. torrent_setMetadata env t md bytes = (None, t1) \<and> contains (toLower (Name md)) ''porn''
          then e = ErrNoPornPlx \<and>
               torrents cl' = (torrents cl)(InfoHash (snd (torrent_setMetadata env t md bytes)) := None)
          else torrents cl' = torrents cl)"
  using assms
  by (auto simp: setMetaData_def setStorage_def Let_def
      split: prod.splits option.splits sum.splits if_splits dest!: dropTorrent_registry)

lemma completedMetadata_unfold:
  assumes "objs cl p = Some t"
  shows "completedMetadata env cl p =
     (if sha1 (MetaData t) \<noteq> InfoHash t
      then Inr (BadMetadata, cl\<lparr>objs := (objs cl)(p \<mapsto> invalidateMetadata t)\<rparr>)
      else
        (case bencodeUnmarshalInfo env (MetaData t) of
           Inl err \<Rightarrow> Inr (ErrorUnmarshalling, cl\<lparr>objs := (objs cl)(p \<mapsto> invalidateMetadata t)\<rparr>)
         | Inr info \<Rightarrow>
             (case setMetaData env cl p info (MetaData t) of
                Inl e \<Rightarrow> Inl e
              | Inr (Some err, cl1) \<Rightarrow>
                  (case invalidateAt cl1 p of Inl e \<Rightarrow> Inl e | Inr cl' \<Rightarrow> Inr (ErrorSetting, cl'))
              | Inr (None, cl1) \<Rightarrow> Inr (GotMetadata, cl1))))"
  using assms by (simp add: completedMetadata_def invalidateAt_def split: sum.splits)

lemma completedMetadata_accepted:
  assumes "objs cl p = Some t"
  shows "completedMetadata env cl p = Inr (GotMetadata, cl') \<longleftrightarrow>
     sha1 (MetaData t) = InfoHash t \<and>
     (\<exists>info. bencodeUnmarshalInfo env (MetaData t) = Inr info \<and>
             setMetaData env cl p info (MetaData t) = Inr (None, cl'))"
  unfolding completedMetadata_unfold[OF assms]
  by (auto split: sum.splits option.splits prod.splits)

lemma completedMetadata_installed:
  assumes "objs cl p = Some t" and "completedMetadata env cl p = Inr (GotMetadata, cl')"
  shows "torrents cl' = torrents cl \<and>
     (\<exists>info t1 t2 t'. bencodeUnmarshalInfo env (MetaData t) = Inr info \<and>
        torrent_setMetadata env t info (MetaData t) = (None, t1) \<and>
        torrent_setStorage env (t1\<lparr>gotMetainfo := True\<rparr>) (torrentDataOpener env info) = (None, t2) \<and>
        startTorrent cl t2 = Inr t' \<and> objs cl' p = Some t' \<and>
        torrent.Info t' = torrent.Info t2 \<and> torrent.Info t' \<noteq> None \<and> torrent_data t' \<noteq> None)"
proof -
  from assms obtain info where d: "bencodeUnmarshalInfo env (MetaData t) = Inr info"
    and s: "setMetaData env cl p info (MetaData t) = Inr (None, cl')"
    using completedMetadata_accepted[OF assms(1)] by blast
  from s obtain t1 t2 t' where a: "torrent_setMetadata env t info (MetaData t) = (None, t1)"
    "torrent_setStorage env (t1\<lparr>gotMetainfo := True\<rparr>) (torrentDataOpener env info) = (None, t2)"
    "startTorrent cl t2 = Inr t'" "cl' = cl\<lparr>objs := (objs cl)(p \<mapsto> t')\<rparr>"
    using setMetaData_accepts[OF assms(1)] by blast
  note r = startTorrent_result[OF a(3)]
  have "torrents cl' = torrents cl" "objs cl' p = Some t'"
    using a(4) by simp_all
  then show ?thesis
    using d a r by blast
qed

lemma completedMetadata_refused:
  assumes "objs cl p = Some t" and "completedMetadata env cl p = Inr (l, cl')" and "l \<noteq> GotMetadata"
  shows "\<exists>t'. objs cl' p = Some t' \<and> MetaData t' = [] \<and> torrent.Info t' = None"
proof (cases "sha1 (MetaData t) \<noteq> InfoHash t")
  case True
  then show ?thesis
    using assms by (auto simp: completedMetadata_unfold invalidateMetadata_def)
next
  case False
  show ?thesis
  proof (cases "bencodeUnmarshalInfo env (MetaData t)")
    case (Inl err)
    then show ?thesis
      using assms False by (auto simp: completedMetadata_unfold invalidateMetadata_def)
  next
    case (Inr info)
    then obtain e cl1 where s: "setMetaData env cl p info (MetaData t) = Inr (Some e, cl1)"
      and i: "invalidateAt cl1 p = Inr cl'"
      using assms False
      by (auto simp: completedMetadata_unfold split: sum.splits option.splits prod.splits)
    from invalidateAt_result[OF i] show ?thesis by simp
  qed
qed

lemma completedMetadata_registry:
  assumes "objs cl p = Some t" and "completedMetadata env cl p = Inr (l, cl')"
  shows "if sha1 (MetaData t) = InfoHash t \<and>
            (\<exists>info t1. bencodeUnmarshalInfo env (MetaData t) = Inr info \<and>
               torrent_setMetadata env t info (MetaData t) = (None, t1) \<and>
               contains (toLower (Name info)) ''porn'')
         then l = ErrorSetting \<and>
              (\<exists>info t1. bencodeUnmarshalInfo env (MetaData t) = Inr info \<and>
                 torrent_setMetadata env t info (MetaData t) = (None, t1) \<and>
                 torrents cl' = (torrents cl)(InfoHash t1 := None))
         else torrents cl' = torrents cl"
proof (cases "sha1 (MetaData t) \<noteq> InfoHash t")
  case True
  then show ?thesis
    using assms by (auto simp: completedMetadata_unfold)
next
  case False
  show ?thesis
  proof (cases "bencodeUnmarshalInfo env (MetaData t)")
    case (Inl err)
    then show ?thesis
      using assms False by (auto simp: completedMetadata_unfold)
  next
    case (Inr info)
    show ?thesis
    proof (cases "l = GotMetadata")
      case True
      then have s: "setMetaData env cl p info (MetaData t) = Inr (None, cl')"
        using assms completedMetadata_accepted[OF assms(1), of env cl'] Inr by simp
      from s have "\<not> contains (toLower (Name info)) ''porn''" "torrents cl' = torrents cl"
        using setMetaData_accepts[OF assms(1), of env info "MetaData t" cl'] by auto
      then show ?thesis
        using Inr by simp
    next
      case False': False
      then obtain e cl1 where s: "setMetaData env cl p info (MetaData t) = Inr (Some e, cl1)"
        and i: "invalidateAt cl1 p = Inr cl'" and l: "l = ErrorSetting"
        using assms False Inr
        by (auto simp: completedMetadata_unfold split: sum.splits option.splits prod.splits)
      have t: "torrents cl' = torrents cl1"
        using invalidateAt_result[OF i] by simp
      note r = setMetaData_refuses[OF assms(1) s, THEN conjunct2]
      show ?thesis
      proof (cases "\<exists>t1. torrent_setMetadata env t info (MetaData t) = (None, t1) \<and>
                         contains (toLower (Name info)) ''porn''")
        case True
        then obtain t1 where t1: "torrent_setMetadata env t info (MetaData t) = (None, t1)" by blast
        then have "torrents cl1 = (torrents cl)(InfoHash t1 := None)"
          using r True by simp
        then show ?thesis
          using True False Inr l t t1 by auto
      next
        case no: False
        then have "torrents cl1 = torrents cl"
          using r by simp
        then show ?thesis
          using no False Inr t by auto
      qed
    qed
  qed
qed

text \<open>
  Claim C7, as amended. The acquired metadata is accepted (\<open>completedMetadata\<close> reaches
  its last line) if and only if the SHA-1 of the metadata buffer equals the torrent's
  infohash, the buffer decodes as an info and \<open>setMetaData\<close> returns no error. Then the
  torrent stays registered and holds what \<^verbatim>\<open>t.setMetadata\<close> and \<^verbatim>\<open>t.setStorage\<close> installed,
  an info and a storage among it. On a mismatch of the hash the buffer is invalidated
  and nothing else changes. Whenever the metadata is not accepted and the function
  returns, the torrent is left with an empty metadata buffer and without info; it stays
  registered, except where the hash matches and \<open>setMetaData\<close> refuses the name of the
  info: then the torrent's infohash leaves the registry.
\<close>

theorem completedMetadata_accepts_iff:
  assumes "objs cl p = Some t"
  shows "(completedMetadata env cl p = Inr (GotMetadata, cl') \<longleftrightarrow>
            sha1 (MetaData t) = InfoHash t \<and>
            (\<exists>info. bencodeUnmarshalInfo env (MetaData t) = Inr info \<and>
                    setMetaData env cl p info (MetaData t) = Inr (None, cl'))) \<and>
         (completedMetadata env cl p = Inr (GotMetadata, cl') \<longrightarrow>
            torrents cl' = torrents cl \<and>
            (\<exists>info t1 t2 t'. bencodeUnmarshalInfo env (MetaData t) = Inr info \<and>
               torrent_setMetadata env t info (MetaData t) = (None, t1) \<and>
               torrent_setStorage env (t1\<lparr>gotMetainfo := True\<rparr>) (torrentDataOpener env info) = (None, t2) \<and>
               startTorrent cl t2 = Inr t' \<and> objs cl' p = Some t' \<and>
               torrent.Info t' = torrent.Info t2 \<and> torrent.Info t' \<noteq> None \<and> torrent_data t' \<noteq> None)) \<and>
         (sha1 (MetaData t) \<noteq> InfoHash t \<longrightarrow>
            completedMetadata env cl p
              = Inr (BadMetadata, cl\<lparr>objs := (objs cl)(p \<mapsto> invalidateMetadata t)\<rparr>)) \<and>
         (completedMetadata env cl p = Inr (l, cl') \<and> l \<noteq> GotMetadata \<longrightarrow>
            (\<exists>t'. objs cl' p = Some t' \<and> MetaData t' = [] \<and> torrent.Info t' = None)) \<and>
         (completedMetadata env cl p = Inr (l, cl') \<longrightarrow>
            (if sha1 (MetaData t) = InfoHash t \<and>
                (\<exists>info t1. bencodeUnmarshalInfo env (MetaData t) = Inr info \<and>
                   torrent_setMetadata env t info (MetaData t) = (None, t1) \<and>
                   contains (toLower (Name info)) ''porn'')
             then l = ErrorSetting \<and>
                  (\<exists>info t1. bencodeUnmarshalInfo env (MetaData t) = Inr info \<and>
                     torrent_setMetadata env t info (MetaData t) = (None, t1) \<and>
                     torrents cl' = (torrents cl)(InfoHash t1 := None))
             else torrents cl' = torrents cl))"
proof (intro conjI impI)
  show "completedMetadata env cl p = Inr (GotMetadata, cl') \<longleftrightarrow>
            sha1 (MetaData t) = InfoHash t \<and>
            (\<exists>info. bencodeUnmarshalInfo env (MetaData t) = Inr info \<and>
                    setMetaData env cl p info (MetaData t) = Inr (None, cl'))"
    by (rule completedMetadata_accepted[OF assms])
next
  assume a: "completedMetadata env cl p = Inr (GotMetadata, cl')"
  show "torrents cl' = torrents cl"
    using completedMetadata_installed[OF assms a] by blast
  show "\<exists>info t1 t2 t'. bencodeUnmarshalInfo env (MetaData t) = Inr info \<and>
               torrent_setMetadata env t info (MetaData t) = (None, t1) \<and>
               torrent_setStorage env (t1\<lparr>gotMetainfo := True\<rparr>) (torrentDataOpener env info) = (None, t2) \<and>
               startTorrent cl t2 = Inr t' \<and> objs cl' p = Some t' \<and>
               torrent.Info t' = torrent.Info t2 \<and> torrent.Info t' \<noteq> None \<and> torrent_data t' \<noteq> None"
    using completedMetadata_installed[OF assms a] by blast
next
  assume "sha1 (MetaData t) \<noteq> InfoHash t"
  then show "completedMetadata env cl p
      = Inr (BadMetadata, cl\<lparr>objs := (objs cl)(p \<mapsto> invalidateMetadata t)\<rparr>)"
    by (simp add: completedMetadata_unfold[OF assms])
next
  assume "completedMetadata env cl p = Inr (l, cl') \<and> l \<noteq> GotMetadata"
  then show "\<exists>t'. objs cl' p = Some t' \<and> MetaData t' = [] \<and> torrent.Info t' = None"
    using completedMetadata_refused[OF assms] by blast
next
  assume "completedMetadata env cl p = Inr (l, cl')"
  then show "if sha1 (MetaData t) = InfoHash t \<and>
                (\<exists>info t1. bencodeUnmarshalInfo env (MetaData t) = Inr info \<and>
                   torrent_setMetadata env t info (MetaData t) = (None, t1) \<and>
                   contains (toLower (Name info)) ''porn'')
             then l = ErrorSetting \<and>
                  (\<exists>info t1. bencodeUnmarshalInfo env (MetaData t) = Inr info \<and>
                     torrent_setMetadata env t info (MetaData t) = (None, t1) \<and>
                     torrents cl' = (torrents cl)(InfoHash t1 := None))
             else torrents cl' = torrents cl"
    by (rule completedMetadata_registry[OF assms])
qed

text \<open>
  Claim C7 as stated fails from right to left: the hash matches and the metadata is not
  accepted. With the one byte \<^verbatim>\<open>x\<close> as metadata and its SHA-1 as infohash, the decoder
  fails, and the torrent stays registered without info. With the encoding of an info
  named \<^verbatim>\<open>Porn\<close> as metadata, \<open>setMetaData\<close> drops the torrent and returns an error: the
  torrent ends without info and is not registered any more.
\<close>

lemma porn_name: "contains (toLower ''Porn'') ''porn''"
  by code_simp

lemma plain_name: "\<not> contains (toLower ''a'') ''porn''"
  by code_simp

lemma unmarshal_x: "unmarshalInfo [0x78] = Inl (ErrExternal ''bencode: syntax error'')"
proof -
  have d: "decode (Suc g) [0x78] = None" for g
    by (simp add: isDigit_def)
  have f: "2 * length [0x78 :: byte] = Suc 1"
    by simp
  show ?thesis
    unfolding unmarshalInfo_def Unmarshal_def decoder_decode_def f d[of 1] by simp
qed

lemma infoOfValue_Porn: "infoOfValue (infoDict ''Porn'') = Inr \<lparr>Name = ''Porn'', PieceLength = 16384\<rparr>"
  by code_simp

lemma infoOfValue_a: "infoOfValue (infoDict ''a'') = Inr \<lparr>Name = ''a'', PieceLength = 16384\<rparr>"
  by code_simp

lemma unmarshalInfo_encode: "unmarshalInfo (encode v) = infoOfValue v"
  by (simp add: unmarshalInfo_def Unmarshal_encode)

lemma magnetClient_torrent:
  "objs (magnetClient m) 0 = Some (magnetTorrent m)"
  "sha1 (MetaData (magnetTorrent m)) = InfoHash (magnetTorrent m)"
  "torrents (magnetClient m) = [sha1 m \<mapsto> 0]"
  by (simp_all add: magnetClient_def magnetTorrent_def newTorrent_def)

lemma undecoded_run:
  assumes "unmarshalInfo m = Inl e"
  shows "metadataOutcome (completedMetadata bencodeEnvironment (magnetClient m) 0) 0
           = Some (ErrorUnmarshalling, None)"
    and "registeredAfter (completedMetadata bencodeEnvironment (magnetClient m) 0) (sha1 m) = Some True"
  using assms
  by (simp_all add: completedMetadata_def invalidateAt_def invalidateMetadata_def magnetClient_def
      magnetTorrent_def newTorrent_def bencodeEnvironment_def rejectingEnvironment_def
      metadataOutcome_def registeredAfter_def)

lemma refused_name_run:
  assumes "unmarshalInfo m = Inr info" and "contains (toLower (Name info)) ''porn''"
  shows "metadataOutcome (completedMetadata bencodeEnvironment (magnetClient m) 0) 0
           = Some (ErrorSetting, None)"
    and "registeredAfter (completedMetadata bencodeEnvironment (magnetClient m) 0) (sha1 m) = Some False"
  using assms
  by (simp_all add: completedMetadata_def setMetaData_def dropTorrent_def invalidateAt_def
      invalidateMetadata_def magnetClient_def magnetTorrent_def newTorrent_def bencodeEnvironment_def
      rejectingEnvironment_def metadataOutcome_def registeredAfter_def)

lemma accepted_run:
  assumes "unmarshalInfo m = Inr info" and "\<not> contains (toLower (Name info)) ''porn''"
  shows "\<exists>cl'. setMetaData bencodeEnvironment (magnetClient m) 0 info (MetaData (magnetTorrent m))
               = Inr (None, cl')"
  using assms
  by (simp add: setMetaData_def setStorage_def startTorrent_def magnetClient_def magnetTorrent_def
      newTorrent_def bencodeEnvironment_def rejectingEnvironment_def)

theorem metadata_iff_counterexample:
  "sha1 (MetaData (magnetTorrent [0x78])) = InfoHash (magnetTorrent [0x78]) \<and>
   metadataOutcome (completedMetadata bencodeEnvironment (magnetClient [0x78]) 0) 0
     = Some (ErrorUnmarshalling, None) \<and>
   registeredAfter (completedMetadata bencodeEnvironment (magnetClient [0x78]) 0) (sha1 [0x78])
     = Some True \<and>
   sha1 (MetaData (magnetTorrent (encode (infoDict ''Porn''))))
     = InfoHash (magnetTorrent (encode (infoDict ''Porn''))) \<and>
   metadataOutcome (completedMetadata bencodeEnvironment (magnetClient (encode (infoDict ''Porn''))) 0) 0
     = Some (ErrorSetting, None) \<and>
   registeredAfter (completedMetadata bencodeEnvironment (magnetClient (encode (infoDict ''Porn''))) 0)
       (sha1 (encode (infoDict ''Porn'')))
     = Some False"
proof -
  have d: "unmarshalInfo (encode (infoDict ''Porn'')) = Inr \<lparr>Name = ''Porn'', PieceLength = 16384\<rparr>"
    by (simp only: unmarshalInfo_encode infoOfValue_Porn)
  have n: "contains (toLower (Name \<lparr>Name = ''Porn'', PieceLength = 16384\<rparr>)) ''porn''"
    using porn_name by simp
  show ?thesis
    using undecoded_run[OF unmarshal_x] refused_name_run[OF d n]
      magnetClient_torrent(2)[of "[0x78]"] magnetClient_torrent(2)[of "encode (infoDict ''Porn'')"]
    by blast
qed

theorem completedMetadata_accepts_iff_witness:
  "objs (magnetClient (encode (infoDict ''a''))) 0 = Some (magnetTorrent (encode (infoDict ''a''))) \<and>
   sha1 (MetaData (magnetTorrent (encode (infoDict ''a''))))
     = InfoHash (magnetTorrent (encode (infoDict ''a''))) \<and>
   (\<exists>cl' t'. completedMetadata bencodeEnvironment (magnetClient (encode (infoDict ''a''))) 0
               = Inr (GotMetadata, cl') \<and>
      torrents cl' = [sha1 (encode (infoDict ''a'')) \<mapsto> 0] \<and>
      objs cl' 0 = Some t' \<and> torrent.Info t' = Some \<lparr>Name = ''a'', PieceLength = 16384\<rparr> \<and>
      torrent_data t' = Some 0)"
proof -
  let ?m = "encode (infoDict ''a'')"
  let ?info = "\<lparr>Name = ''a'', PieceLength = 16384\<rparr>"
  note o = magnetClient_torrent(1)[of ?m]
  note h = magnetClient_torrent(2)[of ?m]
  have md: "MetaData (magnetTorrent ?m) = ?m"
    by (simp add: magnetTorrent_def del: encode.simps)
  have d: "unmarshalInfo ?m = Inr ?info"
    by (simp only: unmarshalInfo_encode infoOfValue_a)
  have d': "bencodeUnmarshalInfo bencodeEnvironment (MetaData (magnetTorrent ?m)) = Inr ?info"
    unfolding md using d by (simp add: bencodeEnvironment_def del: encode.simps)
  have n: "\<not> contains (toLower (Name ?info)) ''porn''"
    using plain_name by simp
  from accepted_run[OF d n] obtain cl' where
    s: "setMetaData bencodeEnvironment (magnetClient ?m) 0 ?info (MetaData (magnetTorrent ?m)) = Inr (None, cl')"
    by blast
  note th = completedMetadata_accepts_iff[OF o, of bencodeEnvironment cl']
  have c: "completedMetadata bencodeEnvironment (magnetClient ?m) 0 = Inr (GotMetadata, cl')"
    using th[THEN conjunct1] h d' s by blast
  from th[THEN conjunct2, THEN conjunct1, rule_format, OF c] obtain info t1 t2 t' where
    r: "torrents cl' = torrents (magnetClient ?m)"
      "bencodeUnmarshalInfo bencodeEnvironment (MetaData (magnetTorrent ?m)) = Inr info"
      "torrent_setMetadata bencodeEnvironment (magnetTorrent ?m) info (MetaData (magnetTorrent ?m)) = (None, t1)"
      "torrent_setStorage bencodeEnvironment (t1\<lparr>gotMetainfo := True\<rparr>)
         (torrentDataOpener bencodeEnvironment info) = (None, t2)"
      "startTorrent (magnetClient ?m) t2 = Inr t'" "objs cl' 0 = Some t'"
      "torrent.Info t' = torrent.Info t2"
    by blast
  have i: "info = ?info"
    using r(2) d' by simp
  have t1: "torrent.Info t1 = Some ?info"
    using r(3) i by (auto simp: bencodeEnvironment_def rejectingEnvironment_def)
  have t2: "torrent.Info t2 = Some ?info" "torrent_data t2 = Some 0"
    using r(4) t1 by (auto simp: bencodeEnvironment_def rejectingEnvironment_def)
  have t': "torrent_data t' = Some 0"
    using r(5) t2 by (auto simp: startTorrent_def split: if_splits)
  have "torrents cl' = [sha1 ?m \<mapsto> 0]"
    using r(1) magnetClient_torrent(3)[of ?m] by simp
  moreover have "torrent.Info t' = Some ?info"
    using r(7) t2 by simp
  ultimately show ?thesis
    using o h c r(6) t' by (intro conjI exI[of _ cl'] exI[of _ t']) (simp_all del: encode.simps)
qed

section \<open>Adding a torrent that is already registered\<close>

text \<open>
  Claim C10. For every spec whose infohash is already in the registry,
  \<open>AddTorrentSpec\<close> returns the registered torrent with \<^verbatim>\<open>new = false\<close> and a nil error
  and leaves the client as it was, whatever the set of banned infohashes holds. So the
  error for a banned infohash is returned only when the infohash is not registered.
\<close>

theorem AddTorrentSpec_registered:
  "(torrents cl (spec_InfoHash spec) = Some t \<longrightarrow>
      AddTorrentSpec env cl spec = Inr ((Some t, False, None), cl) \<and>
      AddTorrentSpec env (cl\<lparr>bannedTorrents := B\<rparr>) spec = Inr ((Some t, False, None), cl\<lparr>bannedTorrents := B\<rparr>)) \<and>
   (AddTorrentSpec env cl spec = Inr ((h, new, Some ErrBannedTorrent), cl') \<longrightarrow>
      torrents cl (spec_InfoHash spec) = None)"
  by (auto simp: AddTorrentSpec_def split: option.splits)

theorem AddTorrentSpec_registered_witness:
  "torrents bannedClient (spec_InfoHash bannedSpec) = Some 0 \<and>
   spec_InfoHash bannedSpec \<in> bannedTorrents bannedClient \<and>
   AddTorrentSpec rejectingEnvironment bannedClient bannedSpec = Inr ((Some 0, False, None), bannedClient) \<and>
   AddTorrentSpec rejectingEnvironment (bannedClient\<lparr>bannedTorrents := {}\<rparr>) bannedSpec
     = Inr ((Some 0, False, None), bannedClient\<lparr>bannedTorrents := {}\<rparr>)"
proof -
  have h: "torrents bannedClient (spec_InfoHash bannedSpec) = Some 0"
    by (simp add: bannedClient_def bannedSpec_def)
  have b: "spec_InfoHash bannedSpec \<in> bannedTorrents bannedClient"
    by (simp add: bannedClient_def bannedSpec_def)
  from AddTorrentSpec_registered[of bannedClient bannedSpec 0 rejectingEnvironment "{}"] h b
  show ?thesis by simp
qed

text \<open>The same banned infohash, not registered, is refused.\<close>

lemma banned_unregistered:
  "AddTorrentSpec rejectingEnvironment (bannedClient\<lparr>torrents := Map.empty\<rparr>) bannedSpec
     = Inr ((None, True, Some ErrBannedTorrent), bannedClient\<lparr>torrents := Map.empty\<rparr>)"
  by (simp add: AddTorrentSpec_def bannedClient_def bannedSpec_def)

section \<open>Reader priorities\<close>

text \<open>
  \<open>raisePiecePriority\<close> touches the priority of its own piece only, and only for a
  piece the client does not have; the loop of \<open>pieceChanged\<close> over the connections
  writes the connections only; the loop of \<open>readRaisePiecePriorities\<close> visits each piece
  after the next one at most once.
\<close>

lemma ceilDiv_floor:
  fixes a b :: int
  assumes "0 < b"
  shows "(a + b - 1) div b = ceilDiv a b"
proof (cases "a mod b = 0")
  case True
  have "a + b - 1 = b * (a div b) + (b - 1)"
    using True by (simp add: algebra_simps) (metis mult.commute mult_div_mod_eq add.right_neutral)
  then have "(a + b - 1) div b = a div b"
    using assms by (intro int_div_pos_eq[where r = "b - 1"]) simp_all
  then show ?thesis
    using True assms by (simp add: ceilDiv_def zdiv_zminus1_eq_if)
next
  case False
  have "0 \<le> a mod b" "a mod b < b"
    using assms by simp_all
  with False have r: "0 < a mod b" "a mod b < b"
    by linarith+
  have "a + b - 1 = b * (a div b + 1) + (a mod b - 1)"
    by (simp add: algebra_simps)
  then have "(a + b - 1) div b = a div b + 1"
    using r by (intro int_div_pos_eq[where r = "a mod b - 1"]) simp_all
  then show ?thesis
    using False assms by (simp add: ceilDiv_def zdiv_zminus1_eq_if)
qed


lemma connsPieceChanged_frame:
  "connsPieceChanged env i correct n k t = Inr t' \<Longrightarrow>
     torrent.Pieces t' = torrent.Pieces t \<and> havePiece t' = havePiece t \<and>
     pieceComplete t' = pieceComplete t \<and> torrent.Info t' = torrent.Info t \<and>
     length (Conns t') = length (Conns t)"
proof (induction n arbitrary: k t)
  case 0
  then show ?case by simp
next
  case (Suc n)
  then obtain c' where
    r: "connsPieceChanged env i correct n (Suc k) (t\<lparr>Conns := (Conns t)[k := c']\<rparr>) = Inr t'"
    by (auto split: sum.splits)
  from Suc.IH[OF r] show ?case by simp
qed

lemma pieceChanged_effect:
  assumes "pieceChanged env cl t i = Inr t'"
  shows "0 \<le> i \<and> i < int (length (torrent.Pieces t)) \<and>
         length (torrent.Pieces t') = length (torrent.Pieces t) \<and>
         havePiece t' = havePiece t \<and> pieceComplete t' = pieceComplete t \<and>
         torrent.Info t' = torrent.Info t \<and> length (Conns t') = length (Conns t) \<and>
         (\<forall>j < length (torrent.Pieces t).
            piece.Priority (torrent.Pieces t' ! j) =
              (if int j = i \<and> pieceComplete t j then piecePriorityNone
               else piece.Priority (torrent.Pieces t ! j)))"
proof -
  from assms obtain p where p: "pieceAt t i = Inr p"
    by (auto simp: pieceChanged_def split: sum.splits)
  then have rng: "0 \<le> i" "i < int (length (torrent.Pieces t))" and pv: "p = torrent.Pieces t ! nat i"
    by (auto simp: pieceAt_def split: if_splits)
  define t1 where "t1 = (if pieceComplete t (nat i)
        then setPiece t i (p\<lparr>piece.Priority := piecePriorityNone, PendingChunkSpecs := []\<rparr>)
        else if length (PendingChunkSpecs p) = 0
             then setPiece t i (p\<lparr>PendingChunkSpecs := torrent_pendAllChunkSpecs env t i\<rparr>)
             else t)"
  from assms p obtain t2 where
    t2: "connsPieceChanged env i (pieceComplete t (nat i)) (length (Conns t1)) 0 t1 = Inr t2"
    and t': "t' = (if torrent_haveAllPieces env t2 \<and> noUpload cl then t2\<lparr>ceasingNetworking := True\<rparr> else t2)"
    by (auto simp: pieceChanged_def Let_def t1_def split: sum.splits)
  note f = connsPieceChanged_frame[OF t2]
  have 1: "length (torrent.Pieces t1) = length (torrent.Pieces t)" "havePiece t1 = havePiece t"
    "pieceComplete t1 = pieceComplete t" "torrent.Info t1 = torrent.Info t" "Conns t1 = Conns t"
    by (simp_all add: t1_def setPiece_def)
  have 2: "piece.Priority (torrent.Pieces t1 ! j) =
              (if int j = i \<and> pieceComplete t j then piecePriorityNone
               else piece.Priority (torrent.Pieces t ! j))" if "j < length (torrent.Pieces t)" for j
    using that rng pv by (cases "j = nat i") (auto simp: t1_def setPiece_def nth_list_update)
  show ?thesis
    using f 1 2 rng by (simp add: t')
qed

lemma pieceChanged_returns:
  assumes "0 \<le> i" "i < int (length (torrent.Pieces t))" "Conns t = []"
  shows "\<exists>t'. pieceChanged env cl t i = Inr t' \<and> Conns t' = []"
  using assms by (simp add: pieceChanged_def pieceAt_def setPiece_def Let_def)

lemma raisePiecePriority_effect:
  assumes "raisePiecePriority env cl t i pr = Inr t'"
  shows "0 \<le> i \<and> i < int (length (torrent.Pieces t)) \<and> length (torrent.Pieces t') = length (torrent.Pieces t) \<and>
         havePiece t' = havePiece t \<and> pieceComplete t' = pieceComplete t \<and> torrent.Info t' = torrent.Info t \<and>
         (\<forall>j < length (torrent.Pieces t).
            piece.Priority (torrent.Pieces t' ! j) =
              (if int j = i \<and> piece.Priority (torrent.Pieces t ! j) < pr \<and> \<not> havePiece t j
               then (if pieceComplete t j then piecePriorityNone else pr)
               else piece.Priority (torrent.Pieces t ! j)))"
proof -
  from assms obtain p where p: "pieceAt t i = Inr p"
    by (auto simp: raisePiecePriority_def split: sum.splits)
  then have rng: "0 \<le> i" "i < int (length (torrent.Pieces t))" and pv: "p = torrent.Pieces t ! nat i"
    by (auto simp: pieceAt_def split: if_splits)
  show ?thesis
  proof (cases "piece.Priority p < pr \<and> \<not> havePiece t (nat i)")
    case False
    then have "t' = t"
      using assms p pv by (auto simp: raisePiecePriority_def prioritizePiece_def split: if_splits)
    then show ?thesis
      using rng pv False by auto
  next
    case True
    then obtain t1 p1 where q: "queueFirstHash t i = Inr t1" and p1: "pieceAt t1 i = Inr p1"
      and pc: "pieceChanged env cl (setPiece t1 i (p1\<lparr>piece.Priority := pr\<rparr>)) i = Inr t'"
      using assms p by (auto simp: raisePiecePriority_def prioritizePiece_def split: sum.splits)
    have q1: "length (torrent.Pieces t1) = length (torrent.Pieces t)" "havePiece t1 = havePiece t"
      "pieceComplete t1 = pieceComplete t" "torrent.Info t1 = torrent.Info t"
      "\<forall>j < length (torrent.Pieces t). piece.Priority (torrent.Pieces t1 ! j) = piece.Priority (torrent.Pieces t ! j)"
      using q p rng pv
      by (auto simp: queueFirstHash_def queuePieceCheck_def setPiece_def nth_list_update
          split: if_splits sum.splits)
    have p1v: "p1 = torrent.Pieces t1 ! nat i"
      using p1 by (auto simp: pieceAt_def split: if_splits)
    let ?t2 = "setPiece t1 i (p1\<lparr>piece.Priority := pr\<rparr>)"
    note e = pieceChanged_effect[OF pc]
    have s: "length (torrent.Pieces ?t2) = length (torrent.Pieces t)" "havePiece ?t2 = havePiece t"
      "pieceComplete ?t2 = pieceComplete t" "torrent.Info ?t2 = torrent.Info t"
      using q1 by (simp_all add: setPiece_def)
    have pr2: "piece.Priority (torrent.Pieces ?t2 ! j) =
        (if int j = i then pr else piece.Priority (torrent.Pieces t ! j))"
      if "j < length (torrent.Pieces t)" for j
      using that q1 rng by (cases "j = nat i") (auto simp: setPiece_def nth_list_update)
    have "piece.Priority (torrent.Pieces t' ! j) =
              (if int j = i \<and> piece.Priority (torrent.Pieces t ! j) < pr \<and> \<not> havePiece t j
               then (if pieceComplete t j then piecePriorityNone else pr)
               else piece.Priority (torrent.Pieces t ! j))"
      if j: "j < length (torrent.Pieces t)" for j
    proof (cases "int j = i")
      case True': True
      then have "j = nat i" by simp
      then show ?thesis
        using e s pr2[OF j] j True pv True' by simp
    next
      case False
      then show ?thesis
        using e s pr2[OF j] j by simp
    qed
    then show ?thesis
      using e s rng by simp
  qed
qed

lemma raisePiecePriority_returns:
  assumes "0 \<le> i" "i < int (length (torrent.Pieces t))" "Conns t = []"
  shows "\<exists>t'. raisePiecePriority env cl t i pr = Inr t' \<and> Conns t' = []"
proof -
  have p: "pieceAt t i = Inr (torrent.Pieces t ! nat i)"
    using assms by (simp add: pieceAt_def)
  show ?thesis
  proof (cases "piece.Priority (torrent.Pieces t ! nat i) < pr \<and> \<not> havePiece t (nat i)")
    case False
    then show ?thesis
      using p assms by (auto simp: raisePiecePriority_def prioritizePiece_def)
  next
    case True
    have "\<exists>t1. queueFirstHash t i = Inr t1 \<and> length (torrent.Pieces t1) = length (torrent.Pieces t)
            \<and> Conns t1 = Conns t"
      using p by (simp add: queueFirstHash_def queuePieceCheck_def setPiece_def)
    then obtain t1 where q: "queueFirstHash t i = Inr t1" and l1: "length (torrent.Pieces t1) = length (torrent.Pieces t)"
      and c1: "Conns t1 = Conns t"
      by blast
    have p1: "pieceAt t1 i = Inr (torrent.Pieces t1 ! nat i)"
      using assms l1 by (simp add: pieceAt_def)
    let ?t2 = "setPiece t1 i ((torrent.Pieces t1 ! nat i)\<lparr>piece.Priority := pr\<rparr>)"
    have "i < int (length (torrent.Pieces ?t2))" "Conns ?t2 = []"
      using assms l1 c1 by (simp_all add: setPiece_def)
    from pieceChanged_returns[OF assms(1) this, of env cl] show ?thesis
      using p True q p1 by (simp add: raisePiecePriority_def prioritizePiece_def)
  qed
qed

lemma raiseReadahead_effect:
  assumes "raiseReadahead env cl n index t = Inr t'" and "- 1 \<le> index"
  shows "length (torrent.Pieces t') = length (torrent.Pieces t) \<and>
         havePiece t' = havePiece t \<and> pieceComplete t' = pieceComplete t \<and>
         (\<forall>j < length (torrent.Pieces t).
            piece.Priority (torrent.Pieces t' ! j) =
              (if index < int j \<and> int j \<le> index + int n \<and>
                  piece.Priority (torrent.Pieces t ! j) < piecePriorityReadahead \<and> \<not> havePiece t j
               then (if pieceComplete t j then piecePriorityNone else piecePriorityReadahead)
               else piece.Priority (torrent.Pieces t ! j)))"
  using assms
proof (induction n arbitrary: index t)
  case 0
  then show ?case by simp
next
  case (Suc n)
  show ?case
  proof (cases "index + 1 \<ge> numPieces t")
    case True
    then have "t' = t"
      using Suc.prems(1) by simp
    moreover have "\<not> index < int j" if "j < length (torrent.Pieces t)" for j
      using that True by (simp add: numPieces_def)
    ultimately show ?thesis by simp
  next
    case False
    then obtain t1 where t1: "raisePiecePriority env cl t (index + 1) piecePriorityReadahead = Inr t1"
      and rest: "raiseReadahead env cl n (index + 1) t1 = Inr t'"
      using Suc.prems(1) by (auto split: sum.splits)
    note e1 = raisePiecePriority_effect[OF t1]
    have "- 1 \<le> index + 1"
      using Suc.prems(2) by simp
    note e2 = Suc.IH[OF rest this]
    show ?thesis
    proof (intro conjI allI impI)
      show "length (torrent.Pieces t') = length (torrent.Pieces t)"
        using e1 e2 by simp
      show "havePiece t' = havePiece t" "pieceComplete t' = pieceComplete t"
        using e1 e2 by simp_all
    next
      fix j
      assume j: "j < length (torrent.Pieces t)"
      then have j1: "j < length (torrent.Pieces t1)"
        using e1 by simp
      show "piece.Priority (torrent.Pieces t' ! j) =
              (if index < int j \<and> int j \<le> index + int (Suc n) \<and>
                  piece.Priority (torrent.Pieces t ! j) < piecePriorityReadahead \<and> \<not> havePiece t j
               then (if pieceComplete t j then piecePriorityNone else piecePriorityReadahead)
               else piece.Priority (torrent.Pieces t ! j))"
      proof (cases "int j = index + 1")
        case True
        then show ?thesis
          using e1 e2 j j1 by simp
      next
        case False
        then have "piece.Priority (torrent.Pieces t1 ! j) = piece.Priority (torrent.Pieces t ! j)"
          using e1 j by simp
        moreover have "(index + 1 < int j \<and> int j \<le> index + 1 + int n)
            = (index < int j \<and> int j \<le> index + int (Suc n))"
          using False by auto
        ultimately show ?thesis
          using e1 e2 j1 by simp
      qed
    qed
  qed
qed

lemma raiseReadahead_returns:
  assumes "- 1 \<le> index" "Conns t = []"
  shows "\<exists>t'. raiseReadahead env cl n index t = Inr t'"
  using assms
proof (induction n arbitrary: index t)
  case 0
  then show ?case by simp
next
  case (Suc n)
  show ?case
  proof (cases "index + 1 \<ge> numPieces t")
    case True
    then show ?thesis by simp
  next
    case False
    then have "0 \<le> index + 1" "index + 1 < int (length (torrent.Pieces t))"
      using Suc.prems by (simp_all add: numPieces_def)
    from raisePiecePriority_returns[OF this Suc.prems(2), of env cl piecePriorityReadahead]
    obtain t1 where t1: "raisePiecePriority env cl t (index + 1) piecePriorityReadahead = Inr t1"
      and c1: "Conns t1 = []"
      by blast
    have "- 1 \<le> index + 1" using Suc.prems by simp
    from Suc.IH[OF this c1] False t1 show ?thesis
      by simp
  qed
qed

lemma sint64_sub_one:
  assumes "0 < sint (q :: 64 word)"
  shows "sint (q - 1) = sint q - 1"
proof -
  have "sint (q - 1) = signed_take_bit 63 (sint q - 1)"
    by (simp add: sint_word_ariths)
  also have "\<dots> = sint q - 1"
    using assms sint64_range[of q] by (intro signed_take_bit_int_eq_self) simp_all
  finally show ?thesis .
qed

lemma sint64_numeral_readahead: "sint (5 * 1024 * 1024 :: 64 word) = 5 * 1024 * 1024"
  by simp

lemma readaheadPieces_ceiling:
  assumes "0 <s pl" and "sint pl \<le> 2 ^ 63 - 5 * 1024 * 1024"
  shows "readaheadPieces (5 * 1024 * 1024) pl = Inr (ceilDiv (5 * 1024 * 1024) (sint pl) - 1)"
    and "0 \<le> ceilDiv (5 * 1024 * 1024) (sint pl) - 1"
proof -
  have p: "0 < sint pl"
    using assms(1) by (simp add: word_sless_alt)
  then have n0: "pl \<noteq> 0"
    by auto
  have c: "(5 * 1024 * 1024 + sint pl - 1) div sint pl = ceilDiv (5 * 1024 * 1024) (sint pl)"
    using p by (rule ceilDiv_floor)
  have w: "5 * 1024 * 1024 + pl - 1 = 5242879 + pl"
    by simp
  have s2: "sint (5 * 1024 * 1024 + pl - 1) = 5 * 1024 * 1024 + sint pl - 1"
    using sint64_add[of 5242879 pl] p assms(2) unfolding w by simp
  have q: "sint (sdiv64 (5 * 1024 * 1024 + pl - 1) pl) = (5 * 1024 * 1024 + sint pl - 1) div sint pl"
    using sdiv64_pos[OF p, of "5 * 1024 * 1024 + pl - 1"] s2 p by (simp add: quot_nonneg)
  have pos: "0 < (5 * 1024 * 1024 + sint pl - 1) div sint pl"
    using p by (simp add: pos_imp_zdiv_pos_iff pos_imp_zdiv_nonneg_iff)
  have "sint (sdiv64 (5 * 1024 * 1024 + pl - 1) pl - 1) = (5 * 1024 * 1024 + sint pl - 1) div sint pl - 1"
    using sint64_sub_one[of "sdiv64 (5 * 1024 * 1024 + pl - 1) pl"] q pos by simp
  then show "readaheadPieces (5 * 1024 * 1024) pl = Inr (ceilDiv (5 * 1024 * 1024) (sint pl) - 1)"
    using n0 c by (simp add: readaheadPieces_def)
  show "0 \<le> ceilDiv (5 * 1024 * 1024) (sint pl) - 1"
    using pos c by simp
qed

lemma read_index:
  assumes "0 <s pl" and "0 \<le>s off"
  shows "sint (sdiv64 off pl) = sint off div sint pl"
  using assms sdiv64_pos[of pl off] by (simp add: word_sless_alt word_sle_eq quot_nonneg)

lemma readRaise_unfold:
  assumes "torrent.Info t = Some info" "0 <s PieceLength info"
    "sint (PieceLength info) \<le> 2 ^ 63 - 5 * 1024 * 1024" "0 \<le>s off"
  shows "readRaisePiecePriorities env cl t off =
     (case raisePiecePriority env cl t (sint off div sint (PieceLength info)) piecePriorityNow of
        Inl e \<Rightarrow> Inl e
      | Inr t1 \<Rightarrow>
          if sint off div sint (PieceLength info) + 1 \<ge> numPieces t1 then Inr t1
          else
            (case raisePiecePriority env cl t1 (sint off div sint (PieceLength info) + 1) piecePriorityNext of
               Inl e \<Rightarrow> Inl e
             | Inr t2 \<Rightarrow>
                 raiseReadahead env cl (nat (ceilDiv (5 * 1024 * 1024) (sint (PieceLength info)) - 1))
                   (sint off div sint (PieceLength info) + 1) t2))"
proof -
  have n0: "PieceLength info \<noteq> 0"
    using assms(2) by (auto simp: word_sless_alt)
  show ?thesis
    using assms(1) n0 readaheadPieces_ceiling[OF assms(2,3)] read_index[OF assms(2,4)]
    by (simp add: readRaisePiecePriorities_def Let_def split: sum.splits)
qed

lemma readRaise_effect:
  assumes rr: "readRaisePiecePriorities env cl t off = Inr t'"
    and info: "torrent.Info t = Some info" "0 <s PieceLength info"
      "sint (PieceLength info) \<le> 2 ^ 63 - 5 * 1024 * 1024" "0 \<le>s off"
  shows "length (torrent.Pieces t') = length (torrent.Pieces t)"
    and "j < length (torrent.Pieces t) \<Longrightarrow>
         piece.Priority (torrent.Pieces t' ! j) =
           (if piece.Priority (torrent.Pieces t ! j)
                 < readTarget (sint off div sint (PieceLength info))
                     (ceilDiv (5 * 1024 * 1024) (sint (PieceLength info)) - 1) j
               \<and> \<not> havePiece t j
            then (if pieceComplete t j then piecePriorityNone
                  else readTarget (sint off div sint (PieceLength info))
                         (ceilDiv (5 * 1024 * 1024) (sint (PieceLength info)) - 1) j)
            else piece.Priority (torrent.Pieces t ! j))"
proof -
  let ?idx = "sint off div sint (PieceLength info)"
  let ?n = "ceilDiv (5 * 1024 * 1024) (sint (PieceLength info)) - 1"
  have n0: "0 \<le> ?n"
    using readaheadPieces_ceiling(2)[OF info(2,3)] .
  have idx0: "0 \<le> ?idx"
    using info by (simp add: pos_imp_zdiv_nonneg_iff word_sless_alt word_sle_eq)
  note u = readRaise_unfold[OF info, of env cl]
  from rr u obtain t1 where t1: "raisePiecePriority env cl t ?idx piecePriorityNow = Inr t1"
    by (auto split: sum.splits)
  note e1 = raisePiecePriority_effect[OF t1]
  have "length (torrent.Pieces t') = length (torrent.Pieces t) \<and>
        (j < length (torrent.Pieces t) \<longrightarrow>
         piece.Priority (torrent.Pieces t' ! j) =
           (if piece.Priority (torrent.Pieces t ! j) < readTarget ?idx ?n j \<and> \<not> havePiece t j
            then (if pieceComplete t j then piecePriorityNone else readTarget ?idx ?n j)
            else piece.Priority (torrent.Pieces t ! j)))"
  proof (cases "?idx + 1 \<ge> numPieces t1")
    case True
    then have "t' = t1"
      using rr u t1 by simp
    moreover have "int j \<le> ?idx" if "j < length (torrent.Pieces t)"
      using True e1 that by (simp add: numPieces_def)
    ultimately show ?thesis
      using e1 by (auto simp: readTarget_def piecePriorityNone_def)
  next
    case False
    then obtain t2 where t2: "raisePiecePriority env cl t1 (?idx + 1) piecePriorityNext = Inr t2"
      and t3: "raiseReadahead env cl (nat ?n) (?idx + 1) t2 = Inr t'"
      using rr u t1 by (auto split: sum.splits)
    note e2 = raisePiecePriority_effect[OF t2]
    have "- 1 \<le> ?idx + 1"
      using idx0 by simp
    note e3 = raiseReadahead_effect[OF t3 this]
    have len: "length (torrent.Pieces t') = length (torrent.Pieces t)"
      using e1 e2 e3 by simp
    have "piece.Priority (torrent.Pieces t' ! j) =
           (if piece.Priority (torrent.Pieces t ! j) < readTarget ?idx ?n j \<and> \<not> havePiece t j
            then (if pieceComplete t j then piecePriorityNone else readTarget ?idx ?n j)
            else piece.Priority (torrent.Pieces t ! j))" if j: "j < length (torrent.Pieces t)"
    proof -
      have j1: "j < length (torrent.Pieces t1)" and j2: "j < length (torrent.Pieces t2)"
        using e1 e2 j by simp_all
      consider (now) "int j = ?idx" | (nxt) "int j = ?idx + 1"
        | (ahead) "?idx + 1 < int j" "int j \<le> ?idx + 1 + ?n"
        | (off) "int j < ?idx \<or> ?idx + 1 + ?n < int j"
        by linarith
      then show ?thesis
      proof cases
        case now
        then show ?thesis
          using e1 e2 e3 j j1 j2 by (simp add: readTarget_def)
      next
        case nxt
        then show ?thesis
          using e1 e2 e3 j j1 j2 by (simp add: readTarget_def)
      next
        case ahead
        then show ?thesis
          using e1 e2 e3 j j1 j2 n0 by (simp add: readTarget_def)
      next
        case off
        then show ?thesis
          using e1 e2 e3 j j1 j2 n0 by (auto simp: readTarget_def piecePriorityNone_def)
      qed
    qed
    with len show ?thesis by simp
  qed
  then show "length (torrent.Pieces t') = length (torrent.Pieces t)"
    and "j < length (torrent.Pieces t) \<Longrightarrow>
         piece.Priority (torrent.Pieces t' ! j) =
           (if piece.Priority (torrent.Pieces t ! j) < readTarget ?idx ?n j \<and> \<not> havePiece t j
            then (if pieceComplete t j then piecePriorityNone else readTarget ?idx ?n j)
            else piece.Priority (torrent.Pieces t ! j))"
    by simp_all
qed

lemma readRaise_returns:
  assumes "torrent.Info t = Some info" "0 <s PieceLength info"
    "sint (PieceLength info) \<le> 2 ^ 63 - 5 * 1024 * 1024" "0 \<le>s off"
    and "sint off div sint (PieceLength info) < int (length (torrent.Pieces t))"
    and "Conns t = []"
  shows "\<exists>t'. readRaisePiecePriorities env cl t off = Inr t'"
proof -
  let ?idx = "sint off div sint (PieceLength info)"
  have idx0: "0 \<le> ?idx"
    using assms by (simp add: pos_imp_zdiv_nonneg_iff word_sless_alt word_sle_eq)
  note u = readRaise_unfold[OF assms(1-4), of env cl]
  from raisePiecePriority_returns[OF idx0 assms(5,6), of env cl piecePriorityNow] obtain t1 where
    t1: "raisePiecePriority env cl t ?idx piecePriorityNow = Inr t1" and c1: "Conns t1 = []" by blast
  show ?thesis
  proof (cases "?idx + 1 \<ge> numPieces t1")
    case True
    then show ?thesis
      using u t1 by simp
  next
    case False
    then have "0 \<le> ?idx + 1" "?idx + 1 < int (length (torrent.Pieces t1))"
      using idx0 by (simp_all add: numPieces_def)
    from raisePiecePriority_returns[OF this c1, of env cl piecePriorityNext] obtain t2 where
      t2: "raisePiecePriority env cl t1 (?idx + 1) piecePriorityNext = Inr t2" and c2: "Conns t2 = []"
      by blast
    have "- 1 \<le> ?idx + 1" using idx0 by simp
    from raiseReadahead_returns[OF this c2] obtain t' where
      "raiseReadahead env cl (nat (ceilDiv (5 * 1024 * 1024) (sint (PieceLength info)) - 1)) (?idx + 1) t2 = Inr t'"
      by blast
    then show ?thesis
      using u t1 t2 False by simp
  qed
qed

lemma connsPieceChanged_complete:
  assumes "\<And>t'. pieceComplete t' (nat i) \<Longrightarrow> \<not> torrent_wantPiece env t' i"
    and "pieceComplete t (nat i)"
  shows "if \<exists>m. k \<le> m \<and> m < k + n \<and> holdsRequestFor (Conns t ! m) i
         then connsPieceChanged env i True n k t = Inl PanicWat
         else \<exists>t'. connsPieceChanged env i True n k t = Inr t'"
  using assms(2)
proof (induction n arbitrary: k t)
  case 0
  then show ?case by simp
next
  case (Suc n)
  have nw: "\<not> torrent_wantPiece env t i"
    using assms(1) Suc.prems by blast
  show ?case
  proof (cases "holdsRequestFor (Conns t ! k) i")
    case True
    then have "\<exists>m. k \<le> m \<and> m < k + Suc n \<and> holdsRequestFor (Conns t ! m) i"
      by (intro exI[of _ k]) simp
    moreover have "connsPieceChanged env i True (Suc n) k t = Inl PanicWat"
      using True by (simp add: connPieceChanged_def)
    ultimately show ?thesis by simp
  next
    case False
    then obtain c' where c': "connPieceChanged env t i True (Conns t ! k) = Inr c'"
      using nw by (simp add: connPieceChanged_def)
    let ?t = "t\<lparr>Conns := (Conns t)[k := c']\<rparr>"
    have pc: "pieceComplete ?t (nat i)"
      using Suc.prems by simp
    have same: "holdsRequestFor (Conns ?t ! m) i = holdsRequestFor (Conns t ! m) i" if "Suc k \<le> m" for m
      using that by simp
    have ex: "(\<exists>m. k \<le> m \<and> m < k + Suc n \<and> holdsRequestFor (Conns t ! m) i)
        = (\<exists>m. Suc k \<le> m \<and> m < Suc k + n \<and> holdsRequestFor (Conns ?t ! m) i)"
    proof
      assume "\<exists>m. k \<le> m \<and> m < k + Suc n \<and> holdsRequestFor (Conns t ! m) i"
      then obtain m where m: "k \<le> m" "m < k + Suc n" "holdsRequestFor (Conns t ! m) i" by blast
      then have "m \<noteq> k" using False by auto
      then have "Suc k \<le> m" using m by simp
      then show "\<exists>m. Suc k \<le> m \<and> m < Suc k + n \<and> holdsRequestFor (Conns ?t ! m) i"
        using m same by (intro exI[of _ m]) simp
    next
      assume "\<exists>m. Suc k \<le> m \<and> m < Suc k + n \<and> holdsRequestFor (Conns ?t ! m) i"
      then obtain m where m: "Suc k \<le> m" "m < Suc k + n" "holdsRequestFor (Conns ?t ! m) i" by blast
      then show "\<exists>m. k \<le> m \<and> m < k + Suc n \<and> holdsRequestFor (Conns t ! m) i"
        using same by (intro exI[of _ m]) simp
    qed
    have step: "connsPieceChanged env i True (Suc n) k t = connsPieceChanged env i True n (Suc k) ?t"
      using c' by simp
    show ?thesis
      using Suc.IH[OF pc, of "Suc k"] unfolding ex step by simp
  qed
qed

lemma pieceChanged_complete:
  assumes "i < length (torrent.Pieces t)" and "pieceComplete t i"
    and "\<And>t'. pieceComplete t' i \<Longrightarrow> \<not> torrent_wantPiece env t' (int i)"
  shows "if \<exists>c \<in> set (Conns t). holdsRequestFor c (int i)
         then pieceChanged env cl t (int i) = Inl PanicWat
         else \<exists>t'. pieceChanged env cl t (int i) = Inr t' \<and>
                   piece.Priority (torrent.Pieces t' ! i) = piecePriorityNone"
proof -
  let ?p = "torrent.Pieces t ! i"
  let ?t1 = "setPiece t (int i) (?p\<lparr>piece.Priority := piecePriorityNone, PendingChunkSpecs := []\<rparr>)"
  have p: "pieceAt t (int i) = Inr ?p"
    using assms(1) by (simp add: pieceAt_def)
  have c1: "Conns ?t1 = Conns t" and pc1: "pieceComplete ?t1 (nat (int i))"
    using assms(2) by (simp_all add: setPiece_def)
  have w: "\<And>t'. pieceComplete t' (nat (int i)) \<Longrightarrow> \<not> torrent_wantPiece env t' (int i)"
    using assms(3) by simp
  have ex: "(\<exists>m. 0 \<le> m \<and> m < 0 + length (Conns ?t1) \<and> holdsRequestFor (Conns ?t1 ! m) (int i))
      = (\<exists>c \<in> set (Conns t). holdsRequestFor c (int i))"
    unfolding c1 using nth_mem[of _ "Conns t"] by (auto simp: in_set_conv_nth)
  note l = connsPieceChanged_complete[OF w pc1, of 0 "length (Conns ?t1)", unfolded ex]
  have u: "pieceChanged env cl t (int i) =
     (case connsPieceChanged env (int i) True (length (Conns ?t1)) 0 ?t1 of
        Inl e \<Rightarrow> Inl e
      | Inr t2 \<Rightarrow>
          Inr (if torrent_haveAllPieces env t2 \<and> noUpload cl then t2\<lparr>ceasingNetworking := True\<rparr>
               else t2))"
    using p assms(2) by (simp add: pieceChanged_def Let_def)
  show ?thesis
  proof (cases "\<exists>c \<in> set (Conns t). holdsRequestFor c (int i)")
    case True
    then show ?thesis
      using l u by simp
  next
    case False
    then obtain t2 where "connsPieceChanged env (int i) True (length (Conns ?t1)) 0 ?t1 = Inr t2"
      using l by auto
    then obtain t' where r: "pieceChanged env cl t (int i) = Inr t'"
      using u by simp
    from pieceChanged_effect[OF r] assms(1,2) have "piece.Priority (torrent.Pieces t' ! i) = piecePriorityNone"
      by simp
    then show ?thesis
      using False r by simp
  qed
qed

text \<open>
  Claim C8, as amended. Let the torrent have an info whose piece length is positive and
  at most \<open>2\<^sup>6\<^sup>3 - 5 MiB\<close> (beyond that the sum in \<open>readaheadPieces\<close> wraps), and let the
  offset \<open>o\<close> not be negative. The target of a piece is now for the piece containing
  \<open>o\<close>, next for the piece after it, readahead for the \<open>\<lceil>5 MiB / pieceLen\<rceil> - 1\<close> pieces
  after that, and none for every other piece.

  If \<open>readRaisePiecePriorities\<close> returns, every piece keeps its priority, except a piece
  that the client does not have and whose priority is below its target: that piece gets
  its target, or none if it is complete already. So a piece the client has is not set to
  now; and where the client has every complete piece, no priority is lowered.

  The read returns when the offset lies inside the torrent and the torrent has no
  connection.

  \<open>pieceChanged\<close> on a complete piece, which the torrent does not want, sets the
  priority of the piece to none, unless a connection still holds a request for the
  piece: then it panics.
\<close>

theorem read_raises_priorities:
  assumes "torrent.Info t = Some info" and "0 <s PieceLength info"
    and "sint (PieceLength info) \<le> 2 ^ 63 - 5 * 1024 * 1024" and "0 \<le>s off"
  shows "(\<forall>t'. readRaisePiecePriorities env cl t off = Inr t' \<longrightarrow>
            length (torrent.Pieces t') = length (torrent.Pieces t) \<and>
            (\<forall>i < length (torrent.Pieces t).
               piece.Priority (torrent.Pieces t' ! i) =
                 (if havePiece t i \<or>
                     \<not> piece.Priority (torrent.Pieces t ! i)
                         < readTarget (sint off div sint (PieceLength info))
                             (ceilDiv (5 * 1024 * 1024) (sint (PieceLength info)) - 1) i
                  then piece.Priority (torrent.Pieces t ! i)
                  else if pieceComplete t i then piecePriorityNone
                  else readTarget (sint off div sint (PieceLength info))
                         (ceilDiv (5 * 1024 * 1024) (sint (PieceLength info)) - 1) i) \<and>
               ((\<forall>k. pieceComplete t k \<longrightarrow> havePiece t k) \<longrightarrow>
                  piece.Priority (torrent.Pieces t ! i) \<le> piece.Priority (torrent.Pieces t' ! i)))) \<and>
         (Conns t = [] \<and> sint off div sint (PieceLength info) < int (length (torrent.Pieces t)) \<longrightarrow>
            (\<exists>t'. readRaisePiecePriorities env cl t off = Inr t')) \<and>
         (\<forall>i < length (torrent.Pieces t).
            pieceComplete t i \<and> (\<forall>t'. pieceComplete t' i \<longrightarrow> \<not> torrent_wantPiece env t' (int i)) \<longrightarrow>
              (if \<exists>c \<in> set (Conns t). holdsRequestFor c (int i)
               then pieceChanged env cl t (int i) = Inl PanicWat
               else \<exists>t''. pieceChanged env cl t (int i) = Inr t'' \<and>
                          piece.Priority (torrent.Pieces t'' ! i) = piecePriorityNone))"
proof (intro conjI allI impI)
  fix t'
  assume rr: "readRaisePiecePriorities env cl t off = Inr t'"
  show "length (torrent.Pieces t') = length (torrent.Pieces t)"
    using readRaise_effect(1)[OF rr assms] .
next
  fix t' i
  assume rr: "readRaisePiecePriorities env cl t off = Inr t'" and i: "i < length (torrent.Pieces t)"
  show "piece.Priority (torrent.Pieces t' ! i) =
                 (if havePiece t i \<or>
                     \<not> piece.Priority (torrent.Pieces t ! i)
                         < readTarget (sint off div sint (PieceLength info))
                             (ceilDiv (5 * 1024 * 1024) (sint (PieceLength info)) - 1) i
                  then piece.Priority (torrent.Pieces t ! i)
                  else if pieceComplete t i then piecePriorityNone
                  else readTarget (sint off div sint (PieceLength info))
                         (ceilDiv (5 * 1024 * 1024) (sint (PieceLength info)) - 1) i)"
    using readRaise_effect(2)[OF rr assms i] by simp
next
  fix t' i
  assume rr: "readRaisePiecePriorities env cl t off = Inr t'" and i: "i < length (torrent.Pieces t)"
    and h: "\<forall>k. pieceComplete t k \<longrightarrow> havePiece t k"
  show "piece.Priority (torrent.Pieces t ! i) \<le> piece.Priority (torrent.Pieces t' ! i)"
    using readRaise_effect(2)[OF rr assms i] h by auto
next
  assume "Conns t = [] \<and> sint off div sint (PieceLength info) < int (length (torrent.Pieces t))"
  then show "\<exists>t'. readRaisePiecePriorities env cl t off = Inr t'"
    using readRaise_returns[OF assms] by blast
next
  fix i
  assume i: "i < length (torrent.Pieces t)"
    and c: "pieceComplete t i \<and> (\<forall>t'. pieceComplete t' i \<longrightarrow> \<not> torrent_wantPiece env t' (int i))"
  show "if \<exists>c \<in> set (Conns t). holdsRequestFor c (int i)
        then pieceChanged env cl t (int i) = Inl PanicWat
        else \<exists>t''. pieceChanged env cl t (int i) = Inr t'' \<and>
                   piece.Priority (torrent.Pieces t'' ! i) = piecePriorityNone"
    using pieceChanged_complete[OF i, of env cl] c by blast
qed

text \<open>
  Claim C8 as stated fails for a piece the client already has: reading at offset 0 of a
  torrent whose first piece is complete leaves that piece at priority none, not now,
  while the next two pieces get next and readahead.
\<close>

lemma streamed_run:
  "prioritiesAfter (readRaisePiecePriorities rejectingEnvironment streamingClient streamedTorrent 0)
     = Some [piecePriorityNone, piecePriorityNext, piecePriorityReadahead]"
  by code_simp

theorem read_priority_counterexample:
  "prioritiesAfter (readRaisePiecePriorities rejectingEnvironment streamingClient streamedTorrent 0)
     = Some [piecePriorityNone, piecePriorityNext, piecePriorityReadahead] \<and>
   piecePriorityNone \<noteq> piecePriorityNow \<and> sint (sdiv64 0 16384) = 0 \<and>
   torrent.Info streamedTorrent = Some \<lparr>Name = ''a'', PieceLength = 16384\<rparr> \<and>
   havePiece streamedTorrent 0"
  using streamed_run
  by (simp add: piecePriorityNone_def piecePriorityNow_def quot_def sdiv64_def streamedTorrent_def)

text \<open>
  The same read with a connection whose peer has every piece: the two pieces that are
  raised are pended on the connection and requested from it.
\<close>

lemma connected_run:
  "prioritiesAfter (readRaisePiecePriorities rejectingEnvironment streamingClient connectedTorrent 0)
     = Some [piecePriorityNone, piecePriorityNext, piecePriorityReadahead] \<and>
   requestsAfter (readRaisePiecePriorities rejectingEnvironment streamingClient connectedTorrent 0)
     = Some [[(1, (0, 16384)), (2, (0, 16384))]]"
  by code_simp

text \<open>
  \<open>pieceChanged\<close> for the complete first piece, while the second connection holds a
  request for it.
\<close>

lemma held_request_panics:
  "panicOfRead (pieceChanged rejectingEnvironment streamingClient requestingTorrent 0) = Some PanicWat"
  by code_simp

text \<open>
  With the largest \<^verbatim>\<open>int64\<close> as piece length the sum in \<open>readaheadPieces\<close> wraps, the
  count is \<open>-1\<close>, and \<^verbatim>\<open>iter.N\<close> panics.
\<close>

lemma huge_piece_length_panics:
  "readaheadPieces (5 * 1024 * 1024) 0x7FFFFFFFFFFFFFFF = Inr (- 1) \<and>
   panicOfRead (readRaisePiecePriorities rejectingEnvironment streamingClient hugePieceTorrent 0)
     = Some PanicLenOutOfRange"
  by code_simp

theorem read_raises_priorities_witness:
  "torrent.Info streamedTorrent = Some \<lparr>Name = ''a'', PieceLength = 16384\<rparr> \<and>
   (0 :: 64 word) <s 16384 \<and> sint (16384 :: 64 word) \<le> 2 ^ 63 - 5 * 1024 * 1024 \<and>
   (0 :: 64 word) \<le>s 0 \<and> Conns streamedTorrent = [] \<and>
   sint (0 :: 64 word) div sint (16384 :: 64 word) < int (length (torrent.Pieces streamedTorrent)) \<and>
   pieceComplete streamedTorrent = havePiece streamedTorrent \<and>
   (\<exists>t'. readRaisePiecePriorities rejectingEnvironment streamingClient streamedTorrent 0 = Inr t' \<and>
      length (torrent.Pieces t') = 3 \<and>
      piece.Priority (torrent.Pieces t' ! 0) = piecePriorityNone \<and>
      piece.Priority (torrent.Pieces t' ! 1) = piecePriorityNext \<and>
      piece.Priority (torrent.Pieces t' ! 2) = piecePriorityReadahead) \<and>
   (\<exists>t''. pieceChanged rejectingEnvironment streamingClient streamedTorrent 0 = Inr t'' \<and>
      piece.Priority (torrent.Pieces t'' ! 0) = piecePriorityNone)"
proof -
  have i: "torrent.Info streamedTorrent = Some \<lparr>Name = ''a'', PieceLength = 16384\<rparr>"
    and l: "length (torrent.Pieces streamedTorrent) = 3"
    and c: "Conns streamedTorrent = []"
    and e: "pieceComplete streamedTorrent = havePiece streamedTorrent"
    and h: "havePiece streamedTorrent 0" "\<not> havePiece streamedTorrent 1" "\<not> havePiece streamedTorrent 2"
    and pc: "pieceComplete streamedTorrent 0" "\<not> pieceComplete streamedTorrent 1"
      "\<not> pieceComplete streamedTorrent 2"
    and pr: "piece.Priority (torrent.Pieces streamedTorrent ! 0) = piecePriorityNone"
      "piece.Priority (torrent.Pieces streamedTorrent ! 1) = piecePriorityNone"
      "piece.Priority (torrent.Pieces streamedTorrent ! 2) = piecePriorityNone"
    by (simp_all add: streamedTorrent_def newTorrent_def freshPiece_def)
  have p: "(0 :: 64 word) <s PieceLength \<lparr>Name = ''a'', PieceLength = 16384\<rparr>"
    and b: "sint (PieceLength \<lparr>Name = ''a'', PieceLength = 16384\<rparr>) \<le> 2 ^ 63 - 5 * 1024 * 1024"
    and o: "(0 :: 64 word) \<le>s 0"
    by (simp_all add: word_sless_alt word_sle_eq)
  have n: "ceilDiv (5 * 1024 * 1024) (sint (PieceLength \<lparr>Name = ''a'', PieceLength = 16384\<rparr>)) - 1 = 319"
    and x: "sint (0 :: 64 word) div sint (PieceLength \<lparr>Name = ''a'', PieceLength = 16384\<rparr>) = 0"
    by (simp_all add: ceilDiv_def)
  have w: "\<forall>t'. pieceComplete t' 0 \<longrightarrow> \<not> torrent_wantPiece rejectingEnvironment t' (int 0)"
    by (simp add: rejectingEnvironment_def)
  have nh: "\<not> (\<exists>c \<in> set (Conns streamedTorrent). holdsRequestFor c (int 0))"
    using c by simp
  note th = read_raises_priorities[OF i p b o, of rejectingEnvironment streamingClient]
  from th[THEN conjunct2, THEN conjunct1] c l x obtain t' where
    r: "readRaisePiecePriorities rejectingEnvironment streamingClient streamedTorrent 0 = Inr t'"
    by auto
  note ef = th[THEN conjunct1, rule_format, OF r]
  have len: "length (torrent.Pieces t') = 3"
    using ef l by simp
  have t: "readTarget 0 319 0 = piecePriorityNow" "readTarget 0 319 1 = piecePriorityNext"
    "readTarget 0 319 2 = piecePriorityReadahead"
    by (simp_all add: readTarget_def)
  have q0: "piece.Priority (torrent.Pieces t' ! 0) = piecePriorityNone"
    using ef[THEN conjunct2, rule_format, of 0, THEN conjunct1] l h pr by simp
  have q1: "piece.Priority (torrent.Pieces t' ! 1) = piecePriorityNext"
    using ef[THEN conjunct2, rule_format, of 1, THEN conjunct1] l h pc pr n x t
    by (simp add: piecePriorityNone_def piecePriorityNext_def)
  have q2: "piece.Priority (torrent.Pieces t' ! 2) = piecePriorityReadahead"
    using ef[THEN conjunct2, rule_format, of 2, THEN conjunct1] l h pc pr n x t
    by (simp add: piecePriorityNone_def piecePriorityReadahead_def)
  have d: "\<exists>t''. pieceChanged rejectingEnvironment streamingClient streamedTorrent 0 = Inr t'' \<and>
      piece.Priority (torrent.Pieces t'' ! 0) = piecePriorityNone"
    using th[THEN conjunct2, THEN conjunct2, rule_format, of 0] l pc(1) w nh by simp
  show ?thesis
    using i p b o c l x e r len q0 q1 q2 d by simp
qed

section \<open>The stealing scenario\<close>

text \<open>
  In phase C of the test, the entry visited in round \<open>k\<close> names a request that the
  stealee still holds and the stealers do not. Whatever the chunk, the sort of round
  \<open>k\<close> has the same outcome, so each round is one step between \<open>stealState\<close>s.
\<close>

lemma length_removeAll_distinct:
  "distinct xs \<Longrightarrow> x \<in> set xs \<Longrightarrow> length (removeAll x xs) = length xs - 1"
  by (simp add: distinct_remove1_removeAll[symmetric] length_remove1)

lemmas sched_defs =
  stealChunk_def sortPeersForPiece_def peerLess_def ml_Int_def ml_Int64_def ml_Uintptr_def ml_Float64_def
  ml_Bool_def eagerSameLess_def MustLess_def pfp_addNextRequest_def addNextRequest_def canFitRequest_def
  deleteRequest_def setInterested_def Let_def basePeer_def stealee_def firstStealer_def secondStealer_def
  stealState_def

lemma steal1:
  assumes "(0, c) \<in> set R0" "(0, c) \<notin> set R1" "(0, c) \<notin> set R2"
    "length R0 < 10" "length R1 < 10" "length R2 < 10"
  shows "stealChunk 0 (c, 0) (stealState R0 R1 R2 i0 i1 i2 [5, 0, 0] [0, Suc 0, Suc (Suc 0)] pre n)
       = Inr (stealState (removeAll (0, c) R0) (R1 @ [(0, c)]) R2 i0 True i2 [4, 1, 0] [Suc 0, Suc (Suc 0), 0] pre (n - 1))"
  using assms by (simp add: sched_defs)

lemma steal2:
  assumes "(0, c) \<in> set R0" "(0, c) \<notin> set R1" "(0, c) \<notin> set R2"
    "length R0 < 10" "length R1 < 10" "length R2 < 10"
  shows "stealChunk 0 (c, 0) (stealState R0 R1 R2 i0 i1 i2 [4, 1, 0] [Suc 0, Suc (Suc 0), 0] pre n)
       = Inr (stealState (removeAll (0, c) R0) R1 (R2 @ [(0, c)]) i0 i1 True [3, 1, 1] [Suc (Suc 0), Suc 0, 0] pre (n - 1))"
  using assms by (simp add: sched_defs)

lemma steal3:
  assumes "(0, c) \<in> set R0" "(0, c) \<notin> set R1" "(0, c) \<notin> set R2"
    "length R0 < 10" "length R1 < 10" "length R2 < 10"
  shows "stealChunk 0 (c, 0) (stealState R0 R1 R2 i0 i1 i2 [3, 1, 1] [Suc (Suc 0), Suc 0, 0] pre n)
       = Inr (stealState (removeAll (0, c) R0) (R1 @ [(0, c)]) R2 i0 True i2 [2, 2, 1] [Suc 0, Suc (Suc 0), 0] pre (n - 1))"
  using assms by (simp add: sched_defs)

lemma steal4:
  assumes "(0, c) \<in> set R0" "(0, c) \<notin> set R1" "(0, c) \<notin> set R2"
    "length R0 < 10" "length R1 < 10" "length R2 < 10"
  shows "stealChunk 0 (c, 0) (stealState R0 R1 R2 i0 i1 i2 [2, 2, 1] [Suc 0, Suc (Suc 0), 0] pre n)
       = Inr (stealState (removeAll (0, c) R0) R1 (R2 @ [(0, c)]) i0 i1 True [1, 2, 2] [Suc (Suc 0), 0, Suc 0] pre (n - 1))"
  using assms by (simp add: sched_defs)

lemma steal5:
  assumes "(0, c) \<in> set R0" "(0, c) \<notin> set R1" "(0, c) \<notin> set R2"
    "length R0 < 10" "length R1 < 10" "length R2 < 10"
  shows "stealChunk 0 (c, 0) (stealState R0 R1 R2 i0 i1 i2 [1, 2, 2] [Suc (Suc 0), 0, Suc 0] pre n)
       = Inr (stealState (removeAll (0, c) R0 @ [(0, c)]) R1 R2 True i1 i2 [1, 2, 2] [0, Suc 0, Suc (Suc 0)] pre (n - 1))"
proof -
  have "length (removeAll (0, c) R0) < 10"
    using assms(4) length_removeAll_less_eq[of "(0, c)" R0] by linarith
  then show ?thesis
    using assms by (simp add: sched_defs)
qed

lemma stealing_entry:
  "y \<in> set stealingPreallocated \<Longrightarrow> snd y = 0 \<and> (0, fst y) \<in> set stealingRequests"
  by (auto simp: stealingPreallocated_def stealingRequests_def)

lemma list5:
  assumes "length ys = 5"
  obtains y1 y2 y3 y4 y5 where "ys = [y1, y2, y3, y4, y5]"
proof -
  from assms obtain y1 t1 where "ys = y1 # t1" "length t1 = 4" by (cases ys) auto
  moreover then obtain y2 t2 where "t1 = y2 # t2" "length t2 = 3" by (cases t1) auto
  moreover then obtain y3 t3 where "t2 = y3 # t3" "length t3 = 2" by (cases t2) auto
  moreover then obtain y4 t4 where "t3 = y4 # t4" "length t4 = 1" by (cases t3) auto
  moreover then obtain y5 where "t4 = [y5]" by (cases t4) auto
  ultimately show ?thesis using that by simp
qed

lemma steal_all:
  assumes "mset ys = mset stealingPreallocated"
  shows "\<exists>R0 R1 R2.
           stealChunks 0 ys
             (stealState stealingRequests [] [] False False False [5, 0, 0] [0, Suc 0, Suc (Suc 0)] pre 5)
           = Inr (stealState R0 R1 R2 True True True [1, 2, 2] [0, Suc 0, Suc (Suc 0)] pre 0)
           \<and> length R0 = 1 \<and> length R1 = 2 \<and> length R2 = 2"
proof -
  have "length ys = 5"
    using mset_eq_length[OF assms] by (simp add: stealingPreallocated_def)
  then obtain y1 y2 y3 y4 y5 where ys: "ys = [y1, y2, y3, y4, y5]"
    by (rule list5)
  have dist: "distinct ys"
    using mset_eq_imp_distinct_iff[OF assms] by (simp add: stealingPreallocated_def)
  have sub: "set ys = set stealingPreallocated"
    using mset_eq_setD[OF assms] .
  define r where "r = (\<lambda>y :: ChunkSpec \<times> nat. ((0, fst y) :: Request))"
  have ent: "y = (fst y, 0) \<and> r y \<in> set stealingRequests" if "y \<in> set ys" for y
    using stealing_entry[of y] that sub by (cases y) (auto simp: r_def)
  have inj: "r y \<noteq> r z" if "y \<in> set ys" "z \<in> set ys" "y \<noteq> z" for y z
    using ent[OF that(1)] ent[OF that(2)] that(3) by (auto simp: r_def)
  have y: "y1 = (fst y1, 0)" "y2 = (fst y2, 0)" "y3 = (fst y3, 0)" "y4 = (fst y4, 0)" "y5 = (fst y5, 0)"
    using ent[of y1] ent[of y2] ent[of y3] ent[of y4] ent[of y5] by (simp_all add: ys)
  have m: "r y1 \<in> set stealingRequests" "r y2 \<in> set stealingRequests" "r y3 \<in> set stealingRequests"
    "r y4 \<in> set stealingRequests" "r y5 \<in> set stealingRequests"
    using ent[of y1] ent[of y2] ent[of y3] ent[of y4] ent[of y5] by (simp_all add: ys)
  have ne: "r y1 \<noteq> r y2" "r y1 \<noteq> r y3" "r y1 \<noteq> r y4" "r y1 \<noteq> r y5"
    "r y2 \<noteq> r y3" "r y2 \<noteq> r y4" "r y2 \<noteq> r y5" "r y3 \<noteq> r y4" "r y3 \<noteq> r y5" "r y4 \<noteq> r y5"
    using dist inj[of y1 y2] inj[of y1 y3] inj[of y1 y4] inj[of y1 y5] inj[of y2 y3]
      inj[of y2 y4] inj[of y2 y5] inj[of y3 y4] inj[of y3 y5] inj[of y4 y5]
    by (simp_all add: ys)
  have dR: "distinct stealingRequests" "length stealingRequests = 5"
    by (simp_all add: stealingRequests_def)
  define A1 where "A1 = removeAll (r y1) stealingRequests"
  define A2 where "A2 = removeAll (r y2) A1"
  define A3 where "A3 = removeAll (r y3) A2"
  define A4 where "A4 = removeAll (r y4) A3"
  define A5 where "A5 = removeAll (r y5) A4"
  have l1: "distinct A1" "length A1 = 4" "set A1 = set stealingRequests - {r y1}"
    using dR m by (simp_all add: A1_def length_removeAll_distinct distinct_removeAll)
  have l2: "distinct A2" "length A2 = 3" "set A2 = set A1 - {r y2}"
    using l1 m ne by (simp_all add: A2_def length_removeAll_distinct distinct_removeAll)
  have l3: "distinct A3" "length A3 = 2" "set A3 = set A2 - {r y3}"
    using l1 l2 m ne by (simp_all add: A3_def length_removeAll_distinct distinct_removeAll)
  have l4: "distinct A4" "length A4 = 1" "set A4 = set A3 - {r y4}"
    using l1 l2 l3 m ne by (simp_all add: A4_def length_removeAll_distinct distinct_removeAll)
  have l5: "length A5 = 0"
    using l1 l2 l3 l4 m ne by (simp add: A5_def length_removeAll_distinct)
  have s1: "stealChunk 0 y1 (stealState stealingRequests [] [] False False False [5, 0, 0] [0, Suc 0, Suc (Suc 0)] pre 5)
      = Inr (stealState A1 [r y1] [] False True False [4, 1, 0] [Suc 0, Suc (Suc 0), 0] pre 4)"
    using steal1[of "fst y1" stealingRequests "[]" "[]" False False False pre 5] m dR y(1)
    by (simp add: r_def A1_def)
  have s2: "stealChunk 0 y2 (stealState A1 [r y1] [] False True False [4, 1, 0] [Suc 0, Suc (Suc 0), 0] pre 4)
      = Inr (stealState A2 [r y1] [r y2] False True True [3, 1, 1] [Suc (Suc 0), Suc 0, 0] pre 3)"
    using steal2[of "fst y2" A1 "[r y1]" "[]" False True False pre 4] m ne l1 y(2)
    by (simp add: r_def A2_def)
  have s3: "stealChunk 0 y3 (stealState A2 [r y1] [r y2] False True True [3, 1, 1] [Suc (Suc 0), Suc 0, 0] pre 3)
      = Inr (stealState A3 [r y1, r y3] [r y2] False True True [2, 2, 1] [Suc 0, Suc (Suc 0), 0] pre 2)"
    using steal3[of "fst y3" A2 "[r y1]" "[r y2]" False True True pre 3] m ne l1 l2 y(3)
    by (simp add: r_def A3_def)
  have s4: "stealChunk 0 y4 (stealState A3 [r y1, r y3] [r y2] False True True [2, 2, 1] [Suc 0, Suc (Suc 0), 0] pre 2)
      = Inr (stealState A4 [r y1, r y3] [r y2, r y4] False True True [1, 2, 2] [Suc (Suc 0), 0, Suc 0] pre 1)"
    using steal4[of "fst y4" A3 "[r y1, r y3]" "[r y2]" False True True pre 2] m ne l1 l2 l3 y(4)
    by (simp add: r_def A4_def)
  have s5: "stealChunk 0 y5 (stealState A4 [r y1, r y3] [r y2, r y4] False True True [1, 2, 2] [Suc (Suc 0), 0, Suc 0] pre 1)
      = Inr (stealState (A5 @ [r y5]) [r y1, r y3] [r y2, r y4] True True True [1, 2, 2] [0, Suc 0, Suc (Suc 0)] pre 0)"
    using steal5[of "fst y5" A4 "[r y1, r y3]" "[r y2, r y4]" False True True pre 1] m ne l1 l2 l3 l4 y(5)
    by (simp add: r_def A5_def)
  have "stealChunks 0 ys (stealState stealingRequests [] [] False False False [5, 0, 0] [0, Suc 0, Suc (Suc 0)] pre 5)
      = Inr (stealState (A5 @ [r y5]) [r y1, r y3] [r y2, r y4] True True True [1, 2, 2] [0, Suc 0, Suc (Suc 0)] pre 0)"
    by (simp add: ys s1 s2 s3 s4 s5)
  then show ?thesis
    using l5 by (intro exI[of _ "A5 @ [r y5]"] exI[of _ "[r y1, r y3]"] exI[of _ "[r y2, r y4]"]) simp
qed


lemma chunkIterRange5: "chunkIterRange 5 = [(0, 1), (1, 1), (2, 1), (3, 1), (4, 1)]"
  by (simp add: chunkIterRange_def upt_rec)

lemma stealing_phaseA:
  "preallocChunks 0 (chunkIterRange 5)
     \<lparr>peersHeap = stealingPeers, requestsInPiece = [0, 0, 0], peersForPiece = [0, Suc 0, Suc (Suc 0)],
      preallocated = [], pendingChunksRemaining = 0\<rparr>
   = Inr (stealState stealingRequests [] [] False False False [5, 0, 0] [0, Suc 0, Suc (Suc 0)] stealingPreallocated 0)"
  by (simp add: chunkIterRange5 stealingPeers_def sched_defs stealingRequests_def stealingPreallocated_def)

lemma stealing_phaseB:
  "fillChunks 0 (chunkIterRange 5)
     (stealState stealingRequests [] [] False False False [5, 0, 0] [0, Suc 0, Suc (Suc 0)] stealingPreallocated 5)
   = Inr (stealState stealingRequests [] [] False False False [5, 0, 0] [0, Suc 0, Suc (Suc 0)] stealingPreallocated 5)"
  by (simp add: chunkIterRange5 fillChunk_def stealState_def stealingPreallocated_def)

lemma stealing_alloc:
  assumes "mset (ord stealingPreallocated) = mset stealingPreallocated"
  shows "\<exists>R0 R1 R2.
     allocatePendingChunks ord \<lparr>piece_t = 0, piece_index = 0, piece_Piece = stealingPiece\<rparr> stealingPeers
       = Inr [\<lparr>rp_Peer = stealee, nextState = \<lparr>Interested = True, Requests = R0\<rparr>, requestablePiecesRemaining = 0\<rparr>,
              \<lparr>rp_Peer = firstStealer, nextState = \<lparr>Interested = True, Requests = R1\<rparr>, requestablePiecesRemaining = 0\<rparr>,
              \<lparr>rp_Peer = secondStealer, nextState = \<lparr>Interested = True, Requests = R2\<rparr>, requestablePiecesRemaining = 0\<rparr>]
     \<and> length R0 = 1 \<and> length R1 = 2 \<and> length R2 = 2"
proof -
  from steal_all[OF assms, of stealingPreallocated] obtain R0 R1 R2 where
    st: "stealChunks 0 (ord stealingPreallocated)
           (stealState stealingRequests [] [] False False False [5, 0, 0] [0, Suc 0, Suc (Suc 0)] stealingPreallocated 5)
         = Inr (stealState R0 R1 R2 True True True [1, 2, 2] [0, Suc 0, Suc (Suc 0)] stealingPreallocated 0)"
    and len: "length R0 = 1" "length R1 = 2" "length R2 = 2"
    by blast
  have init: "\<lparr>peersHeap = stealingPeers, requestsInPiece = map (\<lambda>_. 0) stealingPeers,
       peersForPiece = [0..<length stealingPeers], preallocated = [], pendingChunksRemaining = 0\<rparr>
     = \<lparr>peersHeap = stealingPeers, requestsInPiece = [0, 0, 0], peersForPiece = [0, Suc 0, Suc (Suc 0)],
      preallocated = [], pendingChunksRemaining = 0\<rparr>"
    by (simp add: stealingPeers_def upt_rec)
  have upd: "stealState stealingRequests [] [] False False False [5, 0, 0] [0, Suc 0, Suc (Suc 0)] stealingPreallocated 0
       \<lparr>pendingChunksRemaining := 5\<rparr>
     = stealState stealingRequests [] [] False False False [5, 0, 0] [0, Suc 0, Suc (Suc 0)] stealingPreallocated 5"
    by (simp add: stealState_def)
  have pre: "preallocated (stealState stealingRequests [] [] False False False [5, 0, 0] [0, Suc 0, Suc (Suc 0)] stealingPreallocated 5)
     = stealingPreallocated"
    by (simp add: stealState_def)
  have "allocatePendingChunks ord \<lparr>piece_t = 0, piece_index = 0, piece_Piece = stealingPiece\<rparr> stealingPeers
     = Inr (map (releasePiece 0) (peersHeap (stealState R0 R1 R2 True True True [1, 2, 2] [0, Suc 0, Suc (Suc 0)] stealingPreallocated 0)))"
    unfolding allocatePendingChunks_def Let_def
    by (simp add: init iterPendingChunksWrapper_def stealingPiece_def stealing_phaseA upd stealing_phaseB pre st)
      (simp add: stealState_def)
  then show ?thesis
    using len
    by (intro exI[of _ R0] exI[of _ R1] exI[of _ R2])
      (simp add: stealState_def releasePiece_def stealee_def firstStealer_def secondStealer_def basePeer_def)
qed

text \<open>
  Claim C1. For the input of TestStealingFromSlowerPeer (one torrent, one requestable
  piece with the 5 pending chunks 0..4; a stealee with download rate 1 and id 1 that
  reports every request as existing, and two stealers with download rate 2 and ids 2 and
  3; all three have the piece and \<^verbatim>\<open>MaxRequests = math.MaxInt16\<close>), \<open>DoRequests\<close>
  returns, in whatever order Go visits the map of preallocated chunks, next states in
  which the stealee holds exactly 1 request, the first stealer 2 and the second stealer
  2, and all three peers are interested.
\<close>

theorem stealing_from_slower_peer:
  assumes "iterationOrder mapOrder"
  shows "\<exists>m a b c.
    DoRequests capacity mapOrder [stealingTorrent] = Inr m \<and>
    m 1 = Some a \<and> m 2 = Some b \<and> m 3 = Some c \<and>
    length (Requests a) = 1 \<and> length (Requests b) = 2 \<and> length (Requests c) = 2 \<and>
    Interested a \<and> Interested b \<and> Interested c"
proof -
  have "mset (mapOrder (0, 0) stealingPreallocated) = mset stealingPreallocated"
    using assms by (simp add: iterationOrder_def)
  from stealing_alloc[of "mapOrder (0, 0)", OF this] obtain R0 R1 R2 where
    al: "allocatePendingChunks (mapOrder (0, 0)) \<lparr>piece_t = 0, piece_index = 0, piece_Piece = stealingPiece\<rparr> stealingPeers
       = Inr [\<lparr>rp_Peer = stealee, nextState = \<lparr>Interested = True, Requests = R0\<rparr>, requestablePiecesRemaining = 0\<rparr>,
              \<lparr>rp_Peer = firstStealer, nextState = \<lparr>Interested = True, Requests = R1\<rparr>, requestablePiecesRemaining = 0\<rparr>,
              \<lparr>rp_Peer = secondStealer, nextState = \<lparr>Interested = True, Requests = R2\<rparr>, requestablePiecesRemaining = 0\<rparr>]"
    and len: "length R0 = 1" "length R1 = 2" "length R2 = 2"
    by blast
  have piece: "Request stealingPiece" "NumPendingChunks stealingPiece = 5" "Length stealingPiece = 0"
    by (simp_all add: stealingPiece_def)
  have peers: "map (countRequestable 0) (map newRequestsPeer [stealee, firstStealer, secondStealer]) = stealingPeers"
    by (simp add: countRequestable_def newRequestsPeer_def stealingPeers_def stealee_def firstStealer_def
        secondStealer_def basePeer_def)
  define ot where "ot = \<lparr>ot_Torrent = stealingTorrent, unverifiedBytes = 0, storageLeft = None, ot_peers = stealingPeers\<rparr>"
  define p0 where "p0 = \<lparr>piece_t = 0, piece_index = 0, piece_Piece = stealingPiece\<rparr>"
  define final where "final =
    [\<lparr>rp_Peer = stealee, nextState = \<lparr>Interested = True, Requests = R0\<rparr>, requestablePiecesRemaining = 0\<rparr>,
     \<lparr>rp_Peer = firstStealer, nextState = \<lparr>Interested = True, Requests = R1\<rparr>, requestablePiecesRemaining = 0\<rparr>,
     \<lparr>rp_Peer = secondStealer, nextState = \<lparr>Interested = True, Requests = R2\<rparr>, requestablePiecesRemaining = 0\<rparr>]"
  have collect: "collectTorrents capacity [stealingTorrent]
      \<lparr>pieces = [], storageLeftMap = Map.empty, orderTorrents = []\<rparr>
    = \<lparr>pieces = [p0], storageLeftMap = Map.empty, orderTorrents = [ot]\<rparr>"
    using peers piece by (simp add: stealingTorrent_def ot_def p0_def)
  have srt: "sort_pieces [ot] [p0] = Inr [p0]"
    by (simp add: sort_pieces_def)
  have walk: "walkPiece mapOrder \<lparr>pieces = [p0], storageLeftMap = Map.empty, orderTorrents = [ot]\<rparr> p0
    = Inr \<lparr>pieces = [p0], storageLeftMap = Map.empty,
           orderTorrents = [ot\<lparr>ot_peers := final, unverifiedBytes := 0\<rparr>]\<rparr>"
    using al piece
    by (simp add: walkPiece_def admitPiece_def ot_def p0_def stealingTorrent_def final_def)
  have emit: "emitTorrents [ot\<lparr>ot_peers := final, unverifiedBytes := 0\<rparr>] Map.empty
      = Inr [1 \<mapsto> \<lparr>Interested = True, Requests = R0\<rparr>, 2 \<mapsto> \<lparr>Interested = True, Requests = R1\<rparr>,
             3 \<mapsto> \<lparr>Interested = True, Requests = R2\<rparr>]"
    by (simp add: final_def stealee_def firstStealer_def secondStealer_def basePeer_def)
  have "DoRequests capacity mapOrder [stealingTorrent]
      = Inr [1 \<mapsto> \<lparr>Interested = True, Requests = R0\<rparr>, 2 \<mapsto> \<lparr>Interested = True, Requests = R1\<rparr>,
             3 \<mapsto> \<lparr>Interested = True, Requests = R2\<rparr>]"
    unfolding DoRequests_def Let_def collect
    by (simp del: emitTorrents.simps add: srt walk emit)
  then show ?thesis
    using len by simp
qed

theorem stealing_from_slower_peer_witness:
  "iterationOrder (\<lambda>key xs. xs) \<and>
   (\<exists>m a b c.
      DoRequests (\<lambda>key. None) (\<lambda>key xs. xs) [stealingTorrent] = Inr m \<and>
      m 1 = Some a \<and> m 2 = Some b \<and> m 3 = Some c \<and>
      length (Requests a) = 1 \<and> length (Requests b) = 2 \<and> length (Requests c) = 2 \<and>
      Interested a \<and> Interested b \<and> Interested c)"
proof -
  have h: "iterationOrder (\<lambda>key xs. xs)"
    by (simp add: iterationOrder_def)
  show ?thesis
    using h stealing_from_slower_peer[OF h, of "\<lambda>key. None"] by simp
qed

section \<open>The cap on a peer's requests\<close>

text \<open>
  Every request enters a next state through \<open>addNextRequest\<close>, and each of its three
  call sites checks \<open>canFitRequest\<close> first. So every state of the pass keeps each peer
  within its cap.
\<close>

lemma addNextRequest_withinCap:
  "addNextRequest rp r = Inr rp' \<Longrightarrow> canFitRequest rp \<Longrightarrow> withinCap rp' \<and> rp_Peer rp' = rp_Peer rp"
  by (auto simp: addNextRequest_def canFitRequest_def withinCap_def split: if_splits)

lemma deleteRequest_withinCap:
  assumes "withinCap rp"
  shows "withinCap (deleteRequest rp r) \<and> rp_Peer (deleteRequest rp r) = rp_Peer rp"
proof -
  have "int (length (removeAll r (Requests (nextState rp)))) \<le> int (length (Requests (nextState rp)))"
    by simp
  then have "int (length (removeAll r (Requests (nextState rp)))) \<le> max 0 (MaxRequests (rp_Peer rp))"
    using assms unfolding withinCap_def by linarith
  then show ?thesis
    by (simp add: deleteRequest_def withinCap_def)
qed

lemma setInterested_withinCap:
  "withinCap rp \<Longrightarrow> withinCap (setInterested rp) \<and> rp_Peer (setInterested rp) = rp_Peer rp"
  by (simp add: setInterested_def withinCap_def)

lemma snapshotOf_update:
  assumes "snapshotOf P s" "k < length (peersHeap s) \<Longrightarrow> withinCap rp \<and> rp_Peer rp = rp_Peer (peersHeap s ! k)"
  shows "snapshotOf P (s\<lparr>peersHeap := (peersHeap s)[k := rp]\<rparr>)"
proof (cases "k < length (peersHeap s)")
  case True
  then show ?thesis
    using assms
    by (auto simp: snapshotOf_def map_update list_all_length nth_list_update intro: list_update_same_conv[THEN iffD2])
next
  case False
  then show ?thesis using assms(1) by (simp add: snapshotOf_def list_update_beyond)
qed

lemma snapshotOf_nth:
  "snapshotOf P s \<Longrightarrow> k < length (peersHeap s) \<Longrightarrow> withinCap (peersHeap s ! k)"
  by (simp add: snapshotOf_def list_all_length)

lemma snapshotOf_cong:
  "snapshotOf P s \<Longrightarrow> peersHeap s' = peersHeap s \<Longrightarrow> snapshotOf P s'"
  by (simp add: snapshotOf_def)

lemma pfp_addNextRequest_snapshot:
  assumes "pfp_addNextRequest s k r = Inr s'" "canFitRequest (peersHeap s ! k)" "snapshotOf P s"
  shows "snapshotOf P s'"
proof -
  from assms(1) obtain rp where rp: "addNextRequest (peersHeap s ! k) r = Inr rp"
    and s': "s' = s\<lparr>peersHeap := (peersHeap s)[k := rp],
                    requestsInPiece := (requestsInPiece s)[k := requestsInPiece s ! k + 1]\<rparr>"
    by (auto simp: pfp_addNextRequest_def split: sum.splits)
  have "snapshotOf P (s\<lparr>peersHeap := (peersHeap s)[k := rp]\<rparr>)"
    using addNextRequest_withinCap[OF rp assms(2)] assms(3) by (intro snapshotOf_update) auto
  then show ?thesis
    by (rule snapshotOf_cong) (simp add: s')
qed

lemma preallocPeers_snapshot:
  "preallocPeers idx spec ks s = Inr s' \<Longrightarrow> snapshotOf P s \<Longrightarrow> snapshotOf P s'"
proof (induction ks arbitrary: s)
  case Nil
  then show ?case by simp
next
  case (Cons k ks)
  show ?case
  proof (cases "(case HasExistingRequest (rp_Peer (peersHeap s ! k)) of None \<Rightarrow> True | Some h \<Rightarrow> \<not> h (of_nat idx, spec))
      \<or> \<not> canFitRequest (peersHeap s ! k) \<or> \<not> canRequestPiece (rp_Peer (peersHeap s ! k)) idx")
    case True
    then have "preallocPeers idx spec ks s = Inr s'"
      using Cons.prems(1) by (auto simp: Let_def split: if_splits)
    then show ?thesis using Cons.IH Cons.prems(2) by blast
  next
    case False
    then obtain s1 where
      s1: "pfp_addNextRequest (s\<lparr>preallocated := AList.update spec k (preallocated s)\<rparr>) k (of_nat idx, spec) = Inr s1"
      and rest: "preallocPeers idx spec ks s1 = Inr s'"
      using Cons.prems(1) by (auto simp: Let_def split: if_splits sum.splits)
    have "snapshotOf P (s\<lparr>preallocated := AList.update spec k (preallocated s)\<rparr>)"
      using Cons.prems(2) by (rule snapshotOf_cong) simp
    then have "snapshotOf P s1"
      using pfp_addNextRequest_snapshot[OF s1] False by simp
    then show ?thesis using Cons.IH[OF rest] by blast
  qed
qed

lemma preallocChunks_snapshot:
  "preallocChunks idx specs s = Inr s' \<Longrightarrow> snapshotOf P s \<Longrightarrow> snapshotOf P s'"
  by (induction specs arbitrary: s) (auto split: sum.splits dest: preallocPeers_snapshot)

lemma assignFirst_snapshot:
  "assignFirst idx req ks s = Inr (b, s') \<Longrightarrow> snapshotOf P s \<Longrightarrow> snapshotOf P s'"
proof (induction ks arbitrary: s)
  case Nil
  then show ?case by simp
next
  case (Cons k ks)
  let ?peer = "peersHeap s ! k"
  let ?s1 = "s\<lparr>peersHeap := (peersHeap s)[k := setInterested ?peer]\<rparr>"
  have s1: "snapshotOf P ?s1"
    using Cons.prems(2) snapshotOf_nth[OF Cons.prems(2), of k] setInterested_withinCap[of ?peer]
    by (intro snapshotOf_update) auto
  have fit1: "canFitRequest ?peer \<Longrightarrow> canFitRequest (peersHeap ?s1 ! k)"
    by (cases "k < length (peersHeap s)")
      (simp_all add: canFitRequest_def setInterested_def list_update_beyond)
  from Cons.prems(1) consider
      (skip) "assignFirst idx req ks s = Inr (b, s')"
    | (skip1) "assignFirst idx req ks ?s1 = Inr (b, s')"
    | (take1) "canFitRequest ?peer" "pfp_addNextRequest ?s1 k req = Inr s'"
    | (take) "canFitRequest ?peer" "pfp_addNextRequest s k req = Inr s'"
    by (auto simp: Let_def split: if_splits sum.splits)
  then show ?case
  proof cases
    case skip
    then show ?thesis using Cons.IH Cons.prems(2) by blast
  next
    case skip1
    then show ?thesis using Cons.IH s1 by blast
  next
    case take1
    then show ?thesis using pfp_addNextRequest_snapshot[OF take1(2) fit1 s1] by simp
  next
    case take
    then show ?thesis using pfp_addNextRequest_snapshot[OF take(2) take(1) Cons.prems(2)] by simp
  qed
qed

lemma sortPeersForPiece_heap:
  "sortPeersForPiece s r = Inr s' \<Longrightarrow> peersHeap s' = peersHeap s"
  by (auto simp: sortPeersForPiece_def split: sum.splits)

lemma fillChunk_snapshot:
  assumes "fillChunk idx chunk s = Inr s'" "snapshotOf P s"
  shows "snapshotOf P s'"
proof (cases "map_of (preallocated s) chunk \<noteq> None")
  case True
  then show ?thesis using assms by (simp add: fillChunk_def)
next
  case False
  then obtain s1 b s2 where s1: "sortPeersForPiece s None = Inr s1"
    and s2: "assignFirst idx (of_nat idx, chunk) (peersForPiece s1) s1 = Inr (b, s2)"
    and s': "s' = s2\<lparr>pendingChunksRemaining := pendingChunksRemaining s2 - 1\<rparr>"
    using assms(1) by (auto simp: fillChunk_def split: sum.splits)
  have "snapshotOf P s1"
    using assms(2) sortPeersForPiece_heap[OF s1] by (rule snapshotOf_cong)
  then have "snapshotOf P s2"
    using assignFirst_snapshot[OF s2] by simp
  then show ?thesis
    by (rule snapshotOf_cong) (simp add: s')
qed

lemma fillChunks_snapshot:
  "fillChunks idx chunks s = Inr s' \<Longrightarrow> snapshotOf P s \<Longrightarrow> snapshotOf P s'"
  by (induction chunks arbitrary: s) (auto split: sum.splits dest: fillChunk_snapshot)

lemma stealChunk_snapshot:
  assumes "stealChunk idx entry s = Inr s'" "snapshotOf P s"
  shows "snapshotOf P s'"
proof -
  let ?req = "(of_nat idx, fst entry) :: Request"
  let ?k = "snd entry"
  let ?s0 = "s\<lparr>requestsInPiece := (requestsInPiece s)[?k := requestsInPiece s ! ?k - 1]\<rparr>"
  from assms(1) obtain s1 b s3 where s1: "sortPeersForPiece ?s0 (Some ?req) = Inr s1"
    and s3: "assignFirst idx ?req (peersForPiece s1)
               (s1\<lparr>peersHeap := (peersHeap s1)[?k := deleteRequest (peersHeap s1 ! ?k) ?req]\<rparr>) = Inr (b, s3)"
    and s': "s' = (if b then s3\<lparr>pendingChunksRemaining := pendingChunksRemaining s3 - 1\<rparr> else s3)"
    by (auto simp: stealChunk_def Let_def split: sum.splits)
  have "snapshotOf P ?s0"
    using assms(2) by (rule snapshotOf_cong) simp
  then have a: "snapshotOf P s1"
    using sortPeersForPiece_heap[OF s1] by (rule snapshotOf_cong)
  have "snapshotOf P (s1\<lparr>peersHeap := (peersHeap s1)[?k := deleteRequest (peersHeap s1 ! ?k) ?req]\<rparr>)"
    using a snapshotOf_nth[OF a, of ?k] deleteRequest_withinCap[of "peersHeap s1 ! ?k" ?req]
    by (intro snapshotOf_update) auto
  then have "snapshotOf P s3"
    using assignFirst_snapshot[OF s3] by simp
  then show ?thesis
    by (rule snapshotOf_cong) (simp add: s')
qed

lemma stealChunks_snapshot:
  "stealChunks idx entries s = Inr s' \<Longrightarrow> snapshotOf P s \<Longrightarrow> snapshotOf P s'"
  by (induction entries arbitrary: s) (auto split: sum.splits dest: stealChunk_snapshot)

lemma releasePiece_withinCap:
  "withinCap (releasePiece idx rp) = withinCap rp" "rp_Peer (releasePiece idx rp) = rp_Peer rp"
  by (simp_all add: releasePiece_def withinCap_def)

lemma allocatePendingChunks_withinCap:
  assumes "allocatePendingChunks ord p peers = Inr peers'" "list_all withinCap peers"
  shows "map rp_Peer peers' = map rp_Peer peers \<and> list_all withinCap peers'"
proof -
  let ?P = "map rp_Peer peers"
  let ?s = "\<lparr>peersHeap = peers, requestsInPiece = map (\<lambda>_. 0) peers,
             peersForPiece = [0..<length peers], preallocated = [], pendingChunksRemaining = 0\<rparr>"
  from assms(1) obtain sA sB sC where
    sA: "preallocChunks (piece_index p) (iterPendingChunksWrapper (piece_Piece p)) ?s = Inr sA"
    and sB: "fillChunks (piece_index p) (iterPendingChunksWrapper (piece_Piece p))
               (sA\<lparr>pendingChunksRemaining := NumPendingChunks (piece_Piece p)\<rparr>) = Inr sB"
    and sC: "stealChunks (piece_index p) (ord (preallocated sB)) sB = Inr sC"
    and peers': "peers' = map (releasePiece (piece_index p)) (peersHeap sC)"
    by (auto simp: allocatePendingChunks_def Let_def split: sum.splits if_splits)
  have "snapshotOf ?P ?s"
    using assms(2) by (simp add: snapshotOf_def)
  then have "snapshotOf ?P sA"
    using preallocChunks_snapshot[OF sA] by simp
  then have "snapshotOf ?P (sA\<lparr>pendingChunksRemaining := NumPendingChunks (piece_Piece p)\<rparr>)"
    by (rule snapshotOf_cong) simp
  then have "snapshotOf ?P sB"
    using fillChunks_snapshot[OF sB] by simp
  then have "snapshotOf ?P sC"
    using stealChunks_snapshot[OF sC] by simp
  then show ?thesis
    by (simp add: peers' snapshotOf_def list_all_iff releasePiece_withinCap comp_def)
qed


lemma admitPiece_withinCap:
  assumes "admitPiece ord s p = Inr s'" "torrentsWithinCap ts s"
  shows "torrentsWithinCap ts s'"
proof (cases "s' = s")
  case True
  then show ?thesis using assms(2) by simp
next
  case False
  let ?ti = "piece_t p"
  let ?ot = "orderTorrents s ! ?ti"
  from False assms(1) obtain peers' where
    al: "allocatePendingChunks (ord (?ti, piece_index p)) p (ot_peers ?ot) = Inr peers'"
    and s': "s' = s\<lparr>orderTorrents := (orderTorrents s)
                [?ti := ?ot\<lparr>ot_peers := peers',
                              unverifiedBytes := unverifiedBytes ?ot + Length (piece_Piece p)\<rparr>]\<rparr>"
    by (auto simp: admitPiece_def Let_def split: if_splits sum.splits)
  show ?thesis
  proof (cases "?ti < length (orderTorrents s)")
    case True
    then have ot: "map rp_Peer (ot_peers ?ot) = Peers (ot_Torrent ?ot)" "list_all withinCap (ot_peers ?ot)"
      using assms(2) by (simp_all add: torrentsWithinCap_def list_all_length)
    from allocatePendingChunks_withinCap[OF al ot(2)] ot(1)
    have new: "map rp_Peer peers' = Peers (ot_Torrent ?ot)" "list_all withinCap peers'"
      by simp_all
    show ?thesis
      using assms(2) True new
      by (auto simp: s' torrentsWithinCap_def map_update list_all_length nth_list_update
          intro: list_update_same_conv[THEN iffD2])
  next
    case False
    then show ?thesis
      using assms(2) by (simp add: s' torrentsWithinCap_def list_update_beyond)
  qed
qed

lemma torrentsWithinCap_cong:
  "torrentsWithinCap ts s \<Longrightarrow> orderTorrents s' = orderTorrents s \<Longrightarrow> torrentsWithinCap ts s'"
  by (simp add: torrentsWithinCap_def)

lemma walkPiece_withinCap:
  assumes "walkPiece ord s p = Inr s'" "torrentsWithinCap ts s"
  shows "torrentsWithinCap ts s'"
proof (cases "s' = s")
  case True
  then show ?thesis using assms(2) by simp
next
  case False
  with assms(1) consider
      (plain) "admitPiece ord s p = Inr s'"
    | (charged) m where "admitPiece ord (s\<lparr>storageLeftMap := m\<rparr>) p = Inr s'"
    by (auto simp: walkPiece_def split: option.splits if_splits)
  then show ?thesis
  proof cases
    case plain
    then show ?thesis using assms(2) by (rule admitPiece_withinCap)
  next
    case charged
    have "torrentsWithinCap ts (s\<lparr>storageLeftMap := m\<rparr>)"
      using assms(2) by (rule torrentsWithinCap_cong) simp
    with charged show ?thesis by (rule admitPiece_withinCap)
  qed
qed

lemma walkPieces_withinCap:
  "walkPieces ord ps s = Inr s' \<Longrightarrow> torrentsWithinCap ts s \<Longrightarrow> torrentsWithinCap ts s'"
  by (induction ps arbitrary: s) (auto split: sum.splits dest: walkPiece_withinCap)

lemma countRequestable_withinCap:
  "withinCap (countRequestable i rp) = withinCap rp" "rp_Peer (countRequestable i rp) = rp_Peer rp"
  by (simp_all add: countRequestable_def withinCap_def)

lemma collectPieces_withinCap:
  "collectPieces ti i tps (ps, peers) = (ps', peers') \<Longrightarrow>
     map rp_Peer peers' = map rp_Peer peers \<and> (list_all withinCap peers \<longrightarrow> list_all withinCap peers')"
proof (induction tps arbitrary: i ps peers)
  case Nil
  then show ?case by simp
next
  case (Cons tp tps)
  let ?peers1 = "if Request tp \<and> NumPendingChunks tp \<noteq> 0 then map (countRequestable i) peers else peers"
  have step: "map rp_Peer ?peers1 = map rp_Peer peers" "list_all withinCap ?peers1 = list_all withinCap peers"
    by (simp_all add: countRequestable_withinCap list_all_iff comp_def)
  from Cons.prems have "collectPieces ti (Suc i) tps
      (ps @ [\<lparr>piece_t = ti, piece_index = i, piece_Piece = tp\<rparr>], ?peers1) = (ps', peers')"
    by simp
  from Cons.IH[OF this] step show ?case by simp
qed

lemma collectTorrents_withinCap:
  "torrentsWithinCap ts0 s \<Longrightarrow> torrentsWithinCap (ts0 @ ts) (collectTorrents capacity ts s)"
proof (induction ts arbitrary: ts0 s)
  case Nil
  then show ?case by simp
next
  case (Cons t ts)
  obtain ps peers where cp: "collectPieces (length (orderTorrents s)) 0 (Pieces t)
      (pieces s, map newRequestsPeer (Peers t)) = (ps, peers)"
    by (cases "collectPieces (length (orderTorrents s)) 0 (Pieces t) (pieces s, map newRequestsPeer (Peers t))")
  have init: "map rp_Peer (map newRequestsPeer (Peers t)) = Peers t"
    "list_all withinCap (map newRequestsPeer (Peers t))"
    by (simp_all add: newRequestsPeer_def withinCap_def comp_def list_all_iff)
  from collectPieces_withinCap[OF cp] init
  have peers: "map rp_Peer peers = Peers t" "list_all withinCap peers"
    by simp_all
  define left where "left = (case Capacity t of None \<Rightarrow> None | Some key \<Rightarrow> capacity key)"
  define m where "m = (case left of
                 None \<Rightarrow> storageLeftMap s
               | Some (a, v) \<Rightarrow>
                   (if storageLeftMap s a = None then (storageLeftMap s)(a \<mapsto> v)
                    else storageLeftMap s))"
  define s1 where "s1 = \<lparr>pieces = ps, storageLeftMap = m,
         orderTorrents = orderTorrents s @
           [\<lparr>ot_Torrent = t, unverifiedBytes = 0, storageLeft = map_option fst left, ot_peers = peers\<rparr>]\<rparr>"
  have step: "collectTorrents capacity (t # ts) s = collectTorrents capacity ts s1"
    by (simp add: cp Let_def s1_def m_def left_def)
  have "torrentsWithinCap (ts0 @ [t]) s1"
    using Cons.prems peers by (simp add: torrentsWithinCap_def s1_def)
  from Cons.IH[OF this] show ?case
    unfolding step by simp
qed

lemma emitPeers_source:
  "emitPeers rps ret = Inr m \<Longrightarrow> m k = Some ns \<Longrightarrow>
     ret k = Some ns \<or> (\<exists>rp \<in> set rps. IdUintptr (rp_Peer rp) = k \<and> nextState rp = ns)"
proof (induction rps arbitrary: ret)
  case Nil
  then show ?case by simp
next
  case (Cons rp rps)
  from Cons.prems(1) have
    "emitPeers rps (ret(IdUintptr (rp_Peer rp) \<mapsto> nextState rp)) = Inr m"
    by (simp split: if_splits)
  from Cons.IH[OF this Cons.prems(2)] show ?case
    by (auto split: if_splits)
qed

lemma emitTorrents_source:
  "emitTorrents ots ret = Inr m \<Longrightarrow> m k = Some ns \<Longrightarrow>
     ret k = Some ns \<or>
     (\<exists>ot \<in> set ots. \<exists>rp \<in> set (ot_peers ot). IdUintptr (rp_Peer rp) = k \<and> nextState rp = ns)"
proof (induction ots arbitrary: ret)
  case Nil
  then show ?case by simp
next
  case (Cons ot ots)
  from Cons.prems(1) obtain ret' where e: "emitPeers (ot_peers ot) ret = Inr ret'"
    and r: "emitTorrents ots ret' = Inr m"
    by (auto split: sum.splits)
  from Cons.IH[OF r Cons.prems(2)] emitPeers_source[OF e, of k ns] show ?case
    by auto
qed

text \<open>
  Claim C2, as amended. After a scheduler pass, the number of requests in the next state
  emitted for a peer never exceeds that peer's \<open>MaxRequests\<close> (and is 0 when
  \<open>MaxRequests\<close> is negative): chunk requests beyond that bound are not assigned in
  that round. \<open>DoRequests\<close> has no bound of 32 besides.
\<close>

theorem requests_within_MaxRequests:
  assumes "DoRequests capacity mapOrder ts = Inr m" and "m k = Some ns"
  shows "\<exists>t \<in> set ts. \<exists>p \<in> set (Peers t).
           IdUintptr p = k \<and> int (length (Requests ns)) \<le> max 0 (MaxRequests p)"
proof -
  define s0 where "s0 = collectTorrents capacity ts
                 \<lparr>pieces = [], storageLeftMap = Map.empty, orderTorrents = []\<rparr>"
  from assms(1) obtain ps s1 where
    walk: "walkPieces mapOrder ps (s0\<lparr>pieces := ps\<rparr>) = Inr s1"
    and emit: "emitTorrents (orderTorrents s1) Map.empty = Inr m"
    by (auto simp: DoRequests_def Let_def s0_def split: sum.splits)
  have "torrentsWithinCap ([] @ ts) s0"
    unfolding s0_def by (rule collectTorrents_withinCap) (simp add: torrentsWithinCap_def)
  then have "torrentsWithinCap ts (s0\<lparr>pieces := ps\<rparr>)"
    by (simp add: torrentsWithinCap_def)
  from walkPieces_withinCap[OF walk this] have inv: "torrentsWithinCap ts s1" .
  from emitTorrents_source[OF emit assms(2)] obtain ot rp where
    ot: "ot \<in> set (orderTorrents s1)" and rp: "rp \<in> set (ot_peers ot)"
    and k: "IdUintptr (rp_Peer rp) = k" and ns: "nextState rp = ns"
    by auto
  from inv ot have t: "ot_Torrent ot \<in> set ts"
    and P: "map rp_Peer (ot_peers ot) = Peers (ot_Torrent ot)"
    and cap: "list_all withinCap (ot_peers ot)"
    by (auto simp: torrentsWithinCap_def list_all_iff)
  from P rp have "rp_Peer rp \<in> set (Peers (ot_Torrent ot))"
    by (metis image_eqI set_map)
  moreover from cap rp have "withinCap rp"
    by (simp add: list_all_iff)
  ultimately show ?thesis
    using t k ns by (auto simp: withinCap_def)
qed


lemma eager_run:
  "requestCount (DoRequests (\<lambda>key. None) (\<lambda>key xs. xs) [eagerTorrent]) 1 = Some 33"
  by code_simp

text \<open>
  Claim C2 as stated fails: a peer with \<open>MaxRequests = 40\<close> and a piece with 33
  pending chunks leave the pass with 33 requests, more than \<open>min 40 32\<close>.
\<close>

theorem cap_32_counterexample:
  "requestCount (DoRequests (\<lambda>key. None) (\<lambda>key xs. xs) [eagerTorrent]) 1 = Some 33 \<and>
   \<not> int 33 \<le> min (MaxRequests eagerPeer) 32"
  using eager_run by (simp add: eagerPeer_def)

theorem requests_within_MaxRequests_witness:
  "\<exists>m ns. DoRequests (\<lambda>key. None) (\<lambda>key xs. xs) [eagerTorrent] = Inr m \<and> m 1 = Some ns \<and>
     (\<exists>t \<in> set [eagerTorrent]. \<exists>p \<in> set (Peers t).
        IdUintptr p = 1 \<and> int (length (Requests ns)) \<le> max 0 (MaxRequests p))"
proof -
  from eager_run obtain m ns where
    run: "DoRequests (\<lambda>key. None) (\<lambda>key xs. xs) [eagerTorrent] = Inr m" and ns: "m 1 = Some ns"
    by (auto simp: requestCount_def split: sum.splits)
  from requests_within_MaxRequests[OF run ns] run ns show ?thesis
    by blast
qed

section \<open>The order of the flat piece list\<close>

text \<open>
  On keys that differ, \<open>less_piece\<close> is the strict lexicographic order of the spec's key;
  on equal keys it panics. Hence the model of \<^verbatim>\<open>sort.Slice\<close> is the library's
  \<open>sort_key\<close> when the keys are distinct, and panics otherwise.
\<close>

lemma less_piece_cascade:
  "less_piece ots i j =
     (if cascadeKey ots i = cascadeKey ots j then Inl PanicMustLess
      else Inr (cascadeKey ots i < cascadeKey ots j))"
  by (auto simp: less_piece_def cascadeKey_def MustLess_def ml_Int_def ml_Int64_def ml_Uintptr_def
      ml_Bool_def eagerSameLess_def less_prod_def less_eq_prod_def)

lemma insertBy_insort_key:
  fixes k :: "'a \<Rightarrow> 'k::linorder"
  assumes lt: "\<And>a b. lt a b = (if k a = k b then Inl PanicMustLess else Inr (k a < k b))"
    and "sorted (map k ys)"
  shows "insertBy lt x ys = (if k x \<in> k ` set ys then Inl PanicMustLess else Inr (insort_key k x ys))"
  using assms(2)
proof (induction ys)
  case Nil
  then show ?case by simp
next
  case (Cons y ys)
  then show ?case
    by (auto simp: lt)
qed

lemma sortSlice_sort_key:
  fixes k :: "'a \<Rightarrow> 'k::linorder"
  assumes lt: "\<And>a b. lt a b = (if k a = k b then Inl PanicMustLess else Inr (k a < k b))"
  shows "sortSlice lt xs = (if distinct (map k xs) then Inr (sort_key k xs) else Inl PanicMustLess)"
proof (induction xs)
  case Nil
  then show ?case by simp
next
  case (Cons x xs)
  show ?case
  proof (cases "distinct (map k xs)")
    case True
    then have "sortSlice lt xs = Inr (sort_key k xs)"
      using Cons.IH by simp
    then show ?thesis
      using True insertBy_insort_key[of lt k "sort_key k xs" x, OF lt]
      by simp
  next
    case False
    then show ?thesis using Cons.IH by simp
  qed
qed

lemma sort_pieces_sort_key:
  "sort_pieces ots ps =
     (if distinct (map (cascadeKey ots) ps) then Inr (sort_key (cascadeKey ots) ps) else Inl PanicMustLess)"
  unfolding sort_pieces_def by (rule sortSlice_sort_key) (rule less_piece_cascade)

lemma strictly_sorted_sort_key:
  fixes k :: "'a \<Rightarrow> 'k::linorder"
  assumes "distinct (map k xs)"
  shows "sorted_wrt (\<lambda>a b. k a < k b) (sort_key k xs)"
proof -
  have "sorted (map k (sort_key k xs))" by simp
  moreover have "distinct (map k (sort_key k xs))"
    using assms by (metis distinct_map distinct_sort set_sort)
  ultimately have "sorted_wrt (<) (map k (sort_key k xs))"
    by (simp add: strict_sorted_iff)
  then show ?thesis
    by (simp add: sorted_wrt_map)
qed

text \<open>
  Claim C5. The flat list of (torrent, piece) is sorted by the cascade, first tiebreak
  first: descending priority, partial before non-partial, ascending availability,
  ascending piece index, ascending torrent stable id. The comparison function puts \<open>i\<close>
  before \<open>j\<close> exactly when the cascade does; a sort that returns yields a permutation
  that is strictly ascending in the cascade; and the sort returns whenever no two pieces
  have the same key.
\<close>

theorem pieces_sorted_by_cascade:
  "(less_piece ots i j = Inr True \<longleftrightarrow> cascadeBefore ots i j) \<and>
   (sort_pieces ots ps = Inr ps' \<longrightarrow> sorted_wrt (cascadeBefore ots) ps' \<and> mset ps' = mset ps) \<and>
   (distinct (map (cascadeKey ots) ps) \<longrightarrow> (\<exists>ps'. sort_pieces ots ps = Inr ps'))"
  unfolding cascadeBefore_def
  using strictly_sorted_sort_key[of "cascadeKey ots" ps]
  by (auto simp: less_piece_cascade sort_pieces_sort_key split: if_splits)

lemma cascade_instance:
  "sort_pieces cascadeTorrents cascadePieces
     = Inr [cascadePiece 1 1 4 False 9, cascadePiece 0 1 1 True 5,
            cascadePiece 1 0 1 False 2, cascadePiece 0 0 1 False 2]"
  by (simp add: sort_pieces_def cascadePieces_def cascadePiece_def cascadeTorrents_def less_piece_def
      MustLess_def ml_Int_def ml_Int64_def ml_Uintptr_def ml_Bool_def eagerSameLess_def)


lemma cascade_keys:
  "map (cascadeKey cascadeTorrents) cascadePieces
     = [(-1, True, 2, 0, 7), (-1, False, 5, 1, 7), (-1, True, 2, 0, 3), (-4, True, 9, 1, 3)]"
  by (simp add: cascadeKey_def cascadePieces_def cascadePiece_def cascadeTorrents_def)

theorem pieces_sorted_by_cascade_witness:
  "sort_pieces cascadeTorrents cascadePieces
     = Inr [cascadePiece 1 1 4 False 9, cascadePiece 0 1 1 True 5,
            cascadePiece 1 0 1 False 2, cascadePiece 0 0 1 False 2] \<and>
   distinct (map (cascadeKey cascadeTorrents) cascadePieces) \<and>
   less_piece cascadeTorrents (cascadePiece 0 1 1 True 5) (cascadePiece 0 0 1 False 2) = Inr True \<and>
   cascadeBefore cascadeTorrents (cascadePiece 0 1 1 True 5) (cascadePiece 0 0 1 False 2) \<and>
   sorted_wrt (cascadeBefore cascadeTorrents)
     [cascadePiece 1 1 4 False 9, cascadePiece 0 1 1 True 5,
      cascadePiece 1 0 1 False 2, cascadePiece 0 0 1 False 2]"
proof -
  have d: "distinct (map (cascadeKey cascadeTorrents) cascadePieces)"
    by (simp add: cascade_keys)
  have b: "cascadeBefore cascadeTorrents (cascadePiece 0 1 1 True 5) (cascadePiece 0 0 1 False 2)"
    by (simp add: cascadeBefore_def cascadeKey_def cascadePiece_def cascadeTorrents_def less_prod_def
        less_eq_prod_def)
  show ?thesis
    using cascade_instance d b
      pieces_sorted_by_cascade[of cascadeTorrents "cascadePiece 0 1 1 True 5" "cascadePiece 0 0 1 False 2"
        cascadePieces
        "[cascadePiece 1 1 4 False 9, cascadePiece 0 1 1 True 5,
          cascadePiece 1 0 1 False 2, cascadePiece 0 0 1 False 2]"]
    by simp
qed

section \<open>The gates of the walk\<close>

text \<open>
  \<open>admitPiece\<close> changes nothing but the peers and the unverified bytes of the piece's
  own torrent, and \<open>walkPiece\<close> besides that only the capacity counter of that torrent.
\<close>

lemma admitPiece_storage:
  "admitPiece ord s p = Inr s' \<Longrightarrow> storageLeftMap s' = storageLeftMap s"
  by (auto simp: admitPiece_def Let_def split: if_splits sum.splits)

lemma admitPiece_torrents:
  assumes "admitPiece ord s p = Inr s'"
  shows "length (orderTorrents s') = length (orderTorrents s) \<and>
         (\<forall>ti < length (orderTorrents s).
            storageLeft (orderTorrents s' ! ti) = storageLeft (orderTorrents s ! ti) \<and>
            ot_Torrent (orderTorrents s' ! ti) = ot_Torrent (orderTorrents s ! ti) \<and>
            (ti \<noteq> piece_t p \<longrightarrow> orderTorrents s' ! ti = orderTorrents s ! ti))"
proof (cases "s' = s")
  case True
  then show ?thesis by simp
next
  case False
  with assms obtain ot' where
    s': "s' = s\<lparr>orderTorrents := (orderTorrents s)[piece_t p := ot']\<rparr>"
    and ot': "storageLeft ot' = storageLeft (orderTorrents s ! piece_t p)"
      "ot_Torrent ot' = ot_Torrent (orderTorrents s ! piece_t p)"
    by (auto simp: admitPiece_def Let_def split: if_splits sum.splits)
  have "storageLeft ((orderTorrents s)[piece_t p := ot'] ! ti) = storageLeft (orderTorrents s ! ti) \<and>
        ot_Torrent ((orderTorrents s)[piece_t p := ot'] ! ti) = ot_Torrent (orderTorrents s ! ti) \<and>
        (ti \<noteq> piece_t p \<longrightarrow> (orderTorrents s)[piece_t p := ot'] ! ti = orderTorrents s ! ti)"
    if "ti < length (orderTorrents s)" for ti
    using that ot' by (cases "ti = piece_t p") simp_all
  then show ?thesis
    by (simp add: s')
qed

lemma admitPiece_cases:
  assumes "admitPiece ord s p = Inr s'" "piece_t p < length (orderTorrents s)"
  shows "if requestable p \<and>
            (MaxUnverifiedBytes (ot_Torrent (orderTorrents s ! piece_t p)) = 0 \<or> \<not> overCeiling s p)
         then allocatePendingChunks (ord (piece_t p, piece_index p)) p (ot_peers (orderTorrents s ! piece_t p))
                = Inr (ot_peers (orderTorrents s' ! piece_t p)) \<and>
              unverifiedBytes (orderTorrents s' ! piece_t p)
                = unverifiedBytes (orderTorrents s ! piece_t p) + Length (piece_Piece p)
         else s' = s"
  using assms
  by (auto simp: admitPiece_def requestable_def overCeiling_def Let_def split: if_splits sum.splits)

lemma walkPiece_cases:
  assumes "walkPiece ord s p = Inr s'" "piece_t p < length (orderTorrents s)"
  shows "if admitted s p
         then allocatePendingChunks (ord (piece_t p, piece_index p)) p (ot_peers (orderTorrents s ! piece_t p))
                = Inr (ot_peers (orderTorrents s' ! piece_t p)) \<and>
              unverifiedBytes (orderTorrents s' ! piece_t p)
                = unverifiedBytes (orderTorrents s ! piece_t p) + Length (piece_Piece p)
         else orderTorrents s' = orderTorrents s"
proof (cases "storageLeft (orderTorrents s ! piece_t p)")
  case None
  then have "admitPiece ord s p = Inr s'"
    using assms(1) by (simp add: walkPiece_def)
  from admitPiece_cases[OF this assms(2)] None show ?thesis
    by (auto simp: admitted_def capacityAdmits_def split: if_splits)
next
  case (Some key)
  with assms(1) obtain left where left: "storageLeftMap s key = Some left"
    by (auto simp: walkPiece_def split: option.splits)
  show ?thesis
  proof (cases "left <s Length (piece_Piece p)")
    case True
    then show ?thesis
      using assms(1) Some left by (simp add: walkPiece_def admitted_def capacityAdmits_def)
  next
    case False
    let ?s1 = "s\<lparr>storageLeftMap := (storageLeftMap s)(key \<mapsto> left - Length (piece_Piece p))\<rparr>"
    have a: "admitPiece ord ?s1 p = Inr s'"
      using assms(1) Some left False by (simp add: walkPiece_def)
    have "piece_t p < length (orderTorrents ?s1)"
      using assms(2) by simp
    from admitPiece_cases[OF a this] Some left False show ?thesis
      by (auto simp: admitted_def capacityAdmits_def overCeiling_def split: if_splits)
  qed
qed

lemma walkPiece_torrents:
  assumes "walkPiece ord s p = Inr s'"
  shows "length (orderTorrents s') = length (orderTorrents s) \<and>
         (\<forall>ti < length (orderTorrents s).
            storageLeft (orderTorrents s' ! ti) = storageLeft (orderTorrents s ! ti) \<and>
            ot_Torrent (orderTorrents s' ! ti) = ot_Torrent (orderTorrents s ! ti) \<and>
            (ti \<noteq> piece_t p \<longrightarrow> orderTorrents s' ! ti = orderTorrents s ! ti))"
proof (cases "s' = s")
  case True
  then show ?thesis by simp
next
  case False
  with assms consider
      (plain) "admitPiece ord s p = Inr s'"
    | (charged) m where "admitPiece ord (s\<lparr>storageLeftMap := m\<rparr>) p = Inr s'"
    by (auto simp: walkPiece_def split: option.splits if_splits)
  then show ?thesis
  proof cases
    case plain
    then show ?thesis by (rule admitPiece_torrents)
  next
    case charged
    from admitPiece_torrents[OF charged] show ?thesis by simp
  qed
qed

lemma walkPiece_charge:
  assumes "walkPiece ord s p = Inr s'" "ti < length (orderTorrents s)"
  shows "unverifiedBytes (orderTorrents s' ! ti)
       = unverifiedBytes (orderTorrents s ! ti)
           + (if admitted s p \<and> piece_t p = ti then Length (piece_Piece p) else 0)"
proof (cases "piece_t p = ti")
  case True
  then show ?thesis
    using walkPiece_cases[OF assms(1)] assms(2) by (auto split: if_splits)
next
  case False
  then show ?thesis
    using walkPiece_torrents[OF assms(1)] assms(2) by simp
qed

lemma walkPieces_charge:
  "walkPieces ord ps s = Inr s' \<Longrightarrow> ti < length (orderTorrents s) \<Longrightarrow>
     unverifiedBytes (orderTorrents s' ! ti)
       = unverifiedBytes (orderTorrents s ! ti) + admittedLengths ord ti ps s"
proof (induction ps arbitrary: s)
  case Nil
  then show ?case by simp
next
  case (Cons p ps)
  from Cons.prems(1) obtain s1 where s1: "walkPiece ord s p = Inr s1"
    and rest: "walkPieces ord ps s1 = Inr s'"
    by (auto split: sum.splits)
  have len: "ti < length (orderTorrents s1)"
    using walkPiece_torrents[OF s1] Cons.prems(2) by simp
  show ?case
    using Cons.IH[OF rest len] walkPiece_charge[OF s1 Cons.prems(2)] s1
    by (simp add: add.assoc)
qed

text \<open>
  Claim C3. In a round of the walk that returns, for a piece that passes the capacity
  gate and is requestable: if the torrent's \<open>MaxUnverifiedBytes\<close> is not zero and the
  unverified bytes plus the piece length exceed it, the piece is skipped (the torrents,
  with their peers and unverified bytes, are as before); otherwise, and always when
  \<open>MaxUnverifiedBytes\<close> is zero, its chunks are allocated and its length is added to
  the torrent's unverified bytes. A piece that is not admitted charges nothing, so after
  the walk the unverified bytes of the torrent are what they were plus the lengths of
  its admitted pieces. Sums are those of the 64-bit counter.
\<close>

theorem unverified_bytes_ceiling:
  assumes "walkPieces ord (p # ps) s = Inr s''" and "walkPiece ord s p = Inr s'"
    and "piece_t p < length (orderTorrents s)"
  shows "(capacityAdmits s p \<and> requestable p \<and>
            MaxUnverifiedBytes (ot_Torrent (orderTorrents s ! piece_t p)) \<noteq> 0 \<and> overCeiling s p
          \<longrightarrow> orderTorrents s' = orderTorrents s) \<and>
         (capacityAdmits s p \<and> requestable p \<and>
            (MaxUnverifiedBytes (ot_Torrent (orderTorrents s ! piece_t p)) = 0 \<or> \<not> overCeiling s p)
          \<longrightarrow> allocatePendingChunks (ord (piece_t p, piece_index p)) p (ot_peers (orderTorrents s ! piece_t p))
                = Inr (ot_peers (orderTorrents s' ! piece_t p)) \<and>
              unverifiedBytes (orderTorrents s' ! piece_t p)
                = unverifiedBytes (orderTorrents s ! piece_t p) + Length (piece_Piece p)) \<and>
         (\<not> admitted s p \<longrightarrow> orderTorrents s' = orderTorrents s) \<and>
         unverifiedBytes (orderTorrents s'' ! piece_t p)
           = unverifiedBytes (orderTorrents s ! piece_t p) + admittedLengths ord (piece_t p) (p # ps) s"
  using walkPiece_cases[OF assms(2,3)] walkPieces_charge[OF assms(1,3)]
  by (auto simp: admitted_def split: if_splits)


lemma ceiling_sorted:
  "pieces ceilingStart = ceilingWalk \<and>
   sort_pieces (orderTorrents ceilingStart) (pieces ceilingStart) = Inr ceilingWalk"
  by code_simp

lemma ceiling_run:
  "unverifiedAfter (walkPieces (\<lambda>key xs. xs) ceilingWalk ceilingStart) 0 = Some 32768"
  "unverifiedAfter (walkPiece (\<lambda>key xs. xs) ceilingStart (hd ceilingWalk)) 0 = Some 16384"
  "admittedLengths (\<lambda>key xs. xs) 0 ceilingWalk ceilingStart = 32768"
  "length (orderTorrents ceilingStart) = 1"
  "piece_t (hd ceilingWalk) = 0"
  by code_simp+

theorem unverified_bytes_ceiling_witness:
  "\<exists>s' s''.
     walkPieces (\<lambda>key xs. xs) ceilingWalk ceilingStart = Inr s'' \<and>
     walkPiece (\<lambda>key xs. xs) ceilingStart (hd ceilingWalk) = Inr s' \<and>
     piece_t (hd ceilingWalk) < length (orderTorrents ceilingStart) \<and>
     unverifiedBytes (orderTorrents s' ! 0) = 16384 \<and>
     unverifiedBytes (orderTorrents s'' ! 0)
       = unverifiedBytes (orderTorrents ceilingStart ! 0)
           + admittedLengths (\<lambda>key xs. xs) 0 ceilingWalk ceilingStart \<and>
     unverifiedBytes (orderTorrents s'' ! 0) = 32768"
proof -
  from ceiling_run(1) obtain s'' where
    w: "walkPieces (\<lambda>key xs. xs) ceilingWalk ceilingStart = Inr s''"
    and u'': "unverifiedBytes (orderTorrents s'' ! 0) = 32768"
    by (auto simp: unverifiedAfter_def split: sum.splits)
  from ceiling_run(2) obtain s' where
    w1: "walkPiece (\<lambda>key xs. xs) ceilingStart (hd ceilingWalk) = Inr s'"
    and u': "unverifiedBytes (orderTorrents s' ! 0) = 16384"
    by (auto simp: unverifiedAfter_def split: sum.splits)
  have l: "piece_t (hd ceilingWalk) < length (orderTorrents ceilingStart)"
    by (simp add: ceiling_run)
  have c: "ceilingWalk = hd ceilingWalk # tl ceilingWalk"
    by (simp add: ceilingWalk_def)
  have w': "walkPieces (\<lambda>key xs. xs) (hd ceilingWalk # tl ceilingWalk) ceilingStart = Inr s''"
    using w c by simp
  from unverified_bytes_ceiling[OF w' w1 l] w w1 l u' u'' c show ?thesis
    by (auto simp: ceiling_run(5))
qed

text \<open>
  Claim C4. For a piece whose torrent has a storage-capacity counter: if the capacity
  left is less than the piece length, the round leaves the whole state as it was
  (piece skipped, counter unchanged); otherwise a round that returns has subtracted the
  piece length from the counter, whatever the later gates decide. When the counter
  holds exactly one (positive) piece length, the first piece claims it and the round of
  a second piece of that length, of any torrent sharing the counter, changes nothing.
\<close>

theorem storage_capacity_gate:
  assumes "piece_t p < length (orderTorrents s)"
    and "storageLeft (orderTorrents s ! piece_t p) = Some key"
    and "storageLeftMap s key = Some left"
  shows "(left <s Length (piece_Piece p) \<longrightarrow> walkPiece ord s p = Inr s) \<and>
         (\<not> left <s Length (piece_Piece p) \<longrightarrow>
            (\<forall>s'. walkPiece ord s p = Inr s' \<longrightarrow>
               storageLeftMap s' = (storageLeftMap s)(key \<mapsto> left - Length (piece_Piece p)))) \<and>
         (\<forall>q s'. Length (piece_Piece p) = left \<and> Length (piece_Piece q) = left \<and> 0 <s left \<and>
                 piece_t q < length (orderTorrents s) \<and>
                 storageLeft (orderTorrents s ! piece_t q) = Some key \<and>
                 walkPiece ord s p = Inr s'
            \<longrightarrow> storageLeftMap s' key = Some 0 \<and> walkPiece ord s' q = Inr s')"
proof -
  let ?charged = "s\<lparr>storageLeftMap := (storageLeftMap s)(key \<mapsto> left - Length (piece_Piece p))\<rparr>"
  have skip: "walkPiece ord s p = Inr s" if "left <s Length (piece_Piece p)"
    using that assms by (simp add: walkPiece_def)
  have charge: "storageLeftMap s' = (storageLeftMap s)(key \<mapsto> left - Length (piece_Piece p))"
    if "\<not> left <s Length (piece_Piece p)" and "walkPiece ord s p = Inr s'" for s'
  proof -
    have "admitPiece ord ?charged p = Inr s'"
      using that assms by (simp add: walkPiece_def)
    from admitPiece_storage[OF this] show ?thesis by simp
  qed
  have second: "storageLeftMap s' key = Some 0 \<and> walkPiece ord s' q = Inr s'"
    if h: "Length (piece_Piece p) = left" "Length (piece_Piece q) = left" "0 <s left"
      "piece_t q < length (orderTorrents s)" "storageLeft (orderTorrents s ! piece_t q) = Some key"
      "walkPiece ord s p = Inr s'"
    for q :: pieceRequestOrderPiece and s'
  proof -
    have "\<not> left <s Length (piece_Piece p)"
      using h(1) by simp
    from charge[OF this h(6)] h(1) have m: "storageLeftMap s' key = Some 0"
      by simp
    have "storageLeft (orderTorrents s' ! piece_t q) = Some key"
      using walkPiece_torrents[OF h(6)] h(4,5) by simp
    then have "walkPiece ord s' q = Inr s'"
      using m h(2,3) by (simp add: walkPiece_def)
    with m show ?thesis by simp
  qed
  from skip charge second show ?thesis
    by blast
qed

lemma capped_sorted:
  "pieces cappedStart = [cappedFirst, cappedSecond] \<and>
   sort_pieces (orderTorrents cappedStart) (pieces cappedStart) = Inr [cappedFirst, cappedSecond]"
  by code_simp

lemma capped_run:
  "storageAfter (walkPiece (\<lambda>key xs. xs) cappedStart cappedFirst) 0 = Some 0"
  "storageLeftMap cappedStart 0 = Some 16384"
  "length (orderTorrents cappedStart) = 2"
  "storageLeft (orderTorrents cappedStart ! 0) = Some 0"
  "storageLeft (orderTorrents cappedStart ! 1) = Some 0"
  "Length (piece_Piece cappedFirst) = 16384" "Length (piece_Piece cappedSecond) = 16384"
  "piece_t cappedFirst = 0" "piece_t cappedSecond = 1"
  "piece_t cappedSecond < length (orderTorrents cappedStart)"
  "storageLeft (orderTorrents cappedStart ! piece_t cappedSecond) = Some 0"
  "(0 :: 64 word) <s 16384"
  by code_simp+

theorem storage_capacity_gate_witness:
  "piece_t cappedFirst < length (orderTorrents cappedStart) \<and>
   storageLeft (orderTorrents cappedStart ! piece_t cappedFirst) = Some 0 \<and>
   storageLeftMap cappedStart 0 = Some 16384 \<and>
   \<not> (16384 :: 64 word) <s Length (piece_Piece cappedFirst) \<and>
   (\<exists>s'. walkPiece (\<lambda>key xs. xs) cappedStart cappedFirst = Inr s' \<and>
      storageLeftMap s' 0 = Some 0 \<and>
      walkPiece (\<lambda>key xs. xs) s' cappedSecond = Inr s')"
proof -
  have h1: "piece_t cappedFirst < length (orderTorrents cappedStart)"
    and h2: "storageLeft (orderTorrents cappedStart ! piece_t cappedFirst) = Some 0"
    and h3: "storageLeftMap cappedStart 0 = Some 16384"
    by (simp_all add: capped_run)
  from capped_run(1) obtain s' where
    w: "walkPiece (\<lambda>key xs. xs) cappedStart cappedFirst = Inr s'"
    by (auto simp: storageAfter_def split: sum.splits)
  note gate = storage_capacity_gate[OF h1 h2 h3, of "\<lambda>key xs. xs"]
  from gate[THEN conjunct2, THEN conjunct2, rule_format, of cappedSecond s'] w
  have "storageLeftMap s' 0 = Some 0 \<and> walkPiece (\<lambda>key xs. xs) s' cappedSecond = Inr s'"
    by (simp add: capped_run(6,7,10,11,12))
  with w h1 h2 h3 show ?thesis
    by (auto simp: capped_run)
qed

text \<open>
  A skipped piece that a peer could request is still counted in that peer's
  \<open>requestablePiecesRemaining\<close>, which only \<open>allocatePendingChunks\<close> lowers. In both
  scenarios the walk is as the two theorems say, and the check after the walk then
  panics.
\<close>

lemma skipped_piece_panics:
  "panicOf (DoRequests (\<lambda>key. Some (key, 16384)) (\<lambda>key xs. xs)
              [cappedTorrent 1 firstStealer, cappedTorrent 2 secondStealer])
     = Some (PanicRequestablePiecesRemaining 1)"
  "panicOf (DoRequests (\<lambda>key. None) (\<lambda>key xs. xs) [ceilingTorrent])
     = Some (PanicRequestablePiecesRemaining 1)"
  by code_simp+

text \<open>
  Two keys whose functions return the counter at address 0, which holds one piece
  length: both torrents point to the one counter. Where the function returns nil the
  torrent has no counter.
\<close>

lemma aliased_counters:
  "storagePointers (collectTorrents (\<lambda>key. Some (0, 16384)) [keyedTorrent 1, keyedTorrent 2]
      \<lparr>pieces = [], storageLeftMap = Map.empty, orderTorrents = []\<rparr>) = [Some 0, Some 0] \<and>
   storageLeftMap (collectTorrents (\<lambda>key. Some (0, 16384)) [keyedTorrent 1, keyedTorrent 2]
      \<lparr>pieces = [], storageLeftMap = Map.empty, orderTorrents = []\<rparr>) 0 = Some 16384 \<and>
   storagePointers (collectTorrents (\<lambda>key. None) [keyedTorrent 1, keyedTorrent 2]
      \<lparr>pieces = [], storageLeftMap = Map.empty, orderTorrents = []\<rparr>) = [None, None]"
  by (simp add: storagePointers_def keyedTorrent_def ceilingPiece_def Let_def)

end
